theory Spec2Isabelle
  imports Main "HOL-Library.Word"
begin

unbundle bit_operations_syntax

section \<open>Error codes\<close>

text \<open>
  The result codes of the public interface (the anonymous enum of avstor.h).  \<open>PANIC\<close> is
  not a result code: it stands for a failed \<open>assert\<close> or \<open>CHECK_PARAM\<close>, which aborts
  the process.
\<close>

datatype avstor_err =
    AVSTOR_OK | AVSTOR_PARAM | AVSTOR_MISMATCH | AVSTOR_NOMEM | AVSTOR_NOTFOUND
  | AVSTOR_EXISTS | AVSTOR_IOERR | AVSTOR_CORRUPT | AVSTOR_INVOPER | AVSTOR_INTERNAL
  | AVSTOR_ABORT | PANIC

section \<open>Pages as raw bytes\<close>

text \<open>
  A page frame is 4096 bytes of memory; \<open>page a\<close> is the byte at offset \<open>a\<close> from the start
  of the frame.  Only offsets below \<open>PAGE_SIZE\<close> belong to the frame.  The field offsets are
  those of \<open>struct AvPage\<close> and \<open>struct AvNode\<close> built without AVSTOR_CONFIG_FILE_64BIT
  (32-bit file offsets) on a little-endian host.
\<close>

type_synonym page = "nat \<Rightarrow> 8 word"

definition PAGE_SIZE :: nat where
  "PAGE_SIZE = 4096"

definition MOD_ADLER :: "32 word" where
  "MOD_ADLER = 65521"

text \<open>The body of \<open>while (cnt--)\<close> in compute_page_checksum; \<open>cp\<close> is the read position.\<close>

fun checksum_loop :: "page \<Rightarrow> nat \<Rightarrow> nat \<Rightarrow> 32 word \<Rightarrow> 32 word \<Rightarrow> 32 word \<times> 32 word" where
  "checksum_loop page cp 0 a b = (a, b)"
| "checksum_loop page cp (Suc cnt) a b =
     (let a' = a + ucast (page cp); b' = b + a' in checksum_loop page (cp + 1) cnt a' b')"

definition compute_page_checksum :: "page \<Rightarrow> 32 word" where
  "compute_page_checksum page =
     (case checksum_loop page 0 PAGE_SIZE 1 0 of
        (a, b) \<Rightarrow> push_bit 16 (b mod MOD_ADLER) OR (a mod MOD_ADLER))"

text \<open>The \<open>checksum\<close> field: bytes 0..3 of the page.\<close>

definition get_checksum :: "page \<Rightarrow> 32 word" where
  "get_checksum page =
     ucast (page 0) OR push_bit 8 (ucast (page 1)) OR push_bit 16 (ucast (page 2))
       OR push_bit 24 (ucast (page 3))"

definition set_checksum :: "32 word \<Rightarrow> page \<Rightarrow> page" where
  "set_checksum v page =
     page(0 := ucast v, 1 := ucast (drop_bit 8 v), 2 := ucast (drop_bit 16 v),
          3 := ucast (drop_bit 24 v))"

definition update_page_checksum :: "page \<Rightarrow> page" where
  "update_page_checksum page =
     (let page1 = set_checksum 0 page in set_checksum (compute_page_checksum page1) page1)"

text \<open>
  Adler-32 as the glossary defines it: running sums \<open>a\<close> and \<open>b\<close>, each reduced modulo
  65521 after every byte, and the value \<open>(b << 16) | a\<close>.
\<close>

fun adler_sums :: "8 word list \<Rightarrow> nat \<Rightarrow> nat \<Rightarrow> nat \<times> nat" where
  "adler_sums [] a b = (a, b)"
| "adler_sums (x # xs) a b =
     (let a' = (a + unat x) mod 65521; b' = (b + a') mod 65521 in adler_sums xs a' b')"

definition adler32_spec :: "8 word list \<Rightarrow> nat" where
  "adler32_spec bs = (case adler_sums bs 1 0 of (a, b) \<Rightarrow> b * 65536 + a)"

definition page_bytes :: "page \<Rightarrow> 8 word list" where
  "page_bytes page = map page [0 ..< PAGE_SIZE]"


section \<open>AVL trees and the back-trace stack\<close>

text \<open>
  An AVL tree of the store: \<open>Null\<close> is the empty node reference (offset 0); a node carries its
  left reference, the balance factor of its header, its file offset, its name, and its right
  reference.  The trees a node reference leads to are given as values; the pages they live in
  are modelled separately.
\<close>

datatype 'a avtree = Null | AvNode "'a avtree" int nat 'a "'a avtree"

text \<open>
  An entry of \<open>AvStack\<close>: the comparison result \<open>comp\<close> and the node \<open>noderef\<close> names.  The
  node is held by what \<open>lock_node\<close> reads from it: its balance factor, offset, name, and the
  child that was not taken on the way down (\<open>other\<close>); the child that was taken is the subtree
  the stack leads to.  The head of the list is the top of the stack.
\<close>

datatype 'a frame = Frame (comp: int) (fbf: int) (fofs: nat) (fname: 'a) (other: "'a avtree")

definition AVSTOR_AVL_HEIGHT :: nat where
  "AVSTOR_AVL_HEIGHT = 64"

text \<open>The node an entry names, with \<open>sub\<close> as the child on the side \<open>comp\<close> selects.\<close>

fun node_of :: "'a frame \<Rightarrow> 'a avtree \<Rightarrow> 'a avtree" where
  "node_of (Frame c b ofs nm s) sub = (if c < 0 then AvNode sub b ofs nm s else AvNode s b ofs nm sub)"

text \<open>The tree as seen from the root reference, with \<open>t\<close> put where the stack leads.\<close>

fun unwind :: "'a frame list \<Rightarrow> 'a avtree \<Rightarrow> 'a avtree" where
  "unwind [] t = t"
| "unwind (f # st) t = unwind st (node_of f t)"

fun set_bf :: "'a avtree \<Rightarrow> int \<Rightarrow> 'a avtree" where
  "set_bf (AvNode l b ofs nm r) v = AvNode l v ofs nm r"
| "set_bf Null v = Null"

text \<open>
  The loop of find_node_with_backtrace: \<open>cmp\<close> is \<open>key->comparer(key->buf, \<cdot>)\<close>.  The result is
  the node found (\<open>Null\<close> when the search ends at an empty reference) and the stack;
  backtrace_push throws \<open>AVSTOR_INTERNAL\<close> on the 65th entry.
\<close>

fun backtrace_descend :: "('a \<Rightarrow> int) \<Rightarrow> 'a avtree \<Rightarrow> 'a frame list
    \<Rightarrow> avstor_err + ('a avtree \<times> 'a frame list)" where
  "backtrace_descend cmp Null st = Inr (Null, st)"
| "backtrace_descend cmp (AvNode l b ofs nm r) st =
     (let c = cmp nm in
      if c = 0 then Inr (AvNode l b ofs nm r, st)
      else if length st < AVSTOR_AVL_HEIGHT then
        (if c < 0 then backtrace_descend cmp l (Frame c b ofs nm r # st)
         else backtrace_descend cmp r (Frame c b ofs nm l # st))
      else Inl AVSTOR_INTERNAL)"

fun rotate_right :: "'a avtree \<Rightarrow> 'a avtree \<Rightarrow> avstor_err + 'a avtree" where
  "rotate_right (AvNode xl xb xo xn c) (AvNode a zb zo zn t23) =
     Inr (if zb = 0 then AvNode a 1 zo zn (AvNode t23 (- 1) xo xn c)
          else AvNode a 0 zo zn (AvNode t23 0 xo xn c))"
| "rotate_right _ _ = Inl PANIC"

fun rotate_left :: "'a avtree \<Rightarrow> 'a avtree \<Rightarrow> avstor_err + 'a avtree" where
  "rotate_left (AvNode a xb xo xn xr) (AvNode t23 zb zo zn c) =
     Inr (if zb = 0 then AvNode (AvNode a 1 xo xn t23) (- 1) zo zn c
          else AvNode (AvNode a 0 xo xn t23) 0 zo zn c)"
| "rotate_left _ _ = Inl PANIC"

fun rotate_right_left :: "'a avtree \<Rightarrow> 'a avtree \<Rightarrow> avstor_err + 'a avtree" where
  "rotate_right_left (AvNode a xb xo xn xr) (AvNode (AvNode t2 yb yo yn t3) zb zo zn c) =
     Inr (if yb = 0 then AvNode (AvNode a 0 xo xn t2) 0 yo yn (AvNode t3 0 zo zn c)
          else if yb > 0 then AvNode (AvNode a (- 1) xo xn t2) 0 yo yn (AvNode t3 0 zo zn c)
          else AvNode (AvNode a 0 xo xn t2) 0 yo yn (AvNode t3 1 zo zn c))"
| "rotate_right_left _ _ = Inl PANIC"

fun rotate_left_right :: "'a avtree \<Rightarrow> 'a avtree \<Rightarrow> avstor_err + 'a avtree" where
  "rotate_left_right (AvNode xl xb xo xn c) (AvNode a zb zo zn (AvNode t3 yb yo yn t2)) =
     Inr (if yb = 0 then AvNode (AvNode a 0 zo zn t3) 0 yo yn (AvNode t2 0 xo xn c)
          else if yb < 0 then AvNode (AvNode a 0 zo zn t3) 0 yo yn (AvNode t2 1 xo xn c)
          else AvNode (AvNode a (- 1) zo zn t3) 0 yo yn (AvNode t2 0 xo xn c))"
| "rotate_left_right _ _ = Inl PANIC"

fun left_of :: "'a avtree \<Rightarrow> 'a avtree" where
  "left_of (AvNode l b ofs nm r) = l"
| "left_of Null = Null"

fun right_of :: "'a avtree \<Rightarrow> 'a avtree" where
  "right_of (AvNode l b ofs nm r) = r"
| "right_of Null = Null"

fun BF :: "'a avtree \<Rightarrow> int" where
  "BF (AvNode l b ofs nm r) = b"
| "BF Null = 0"

fun balance_down :: "'a frame list \<Rightarrow> 'a avtree \<Rightarrow> avstor_err + 'a avtree" where
  "balance_down [] sub = Inr sub"
| "balance_down (f # st) sub =
     (let cur = node_of f sub;
          c = (if comp f < 0 then - 1 else 1);
          bf_cur = BF cur
      in if bf_cur = 0 then balance_down st (set_bf cur c)
         else if c + bf_cur \<noteq> 0 then
           (case (if bf_cur > 0
                  then (let z = right_of cur in
                        if BF z > 0 then rotate_left cur z else rotate_right_left cur z)
                  else (let z = left_of cur in
                        if BF z < 0 then rotate_right cur z else rotate_left_right cur z)) of
              Inl e \<Rightarrow> Inl e
            | Inr z' \<Rightarrow> Inr (unwind st z'))
         else Inr (unwind st (set_bf cur 0)))"

fun insert_node :: "nat \<Rightarrow> 'a \<Rightarrow> 'a frame list \<Rightarrow> avstor_err + 'a avtree" where
  "insert_node ofs nm st = balance_down st (AvNode Null 0 ofs nm Null)"

fun balance_up :: "'a frame list \<Rightarrow> 'a avtree \<Rightarrow> avstor_err + 'a avtree" where
  "balance_up [] sub = Inr sub"
| "balance_up (f # st) sub =
     (let cur = node_of f sub; c = comp f; bf_cur = BF cur
      in if c < 0 then
           (if bf_cur > 0 then
              (let z = right_of cur; b = BF z in
               case (if b < 0 then rotate_right_left cur z else rotate_left cur z) of
                 Inl e \<Rightarrow> Inl e
               | Inr z' \<Rightarrow> if b = 0 then Inr (unwind st z') else balance_up st z')
            else if bf_cur = 0 then Inr (unwind st (set_bf cur 1))
            else balance_up st (set_bf cur 0))
         else
           (if bf_cur < 0 then
              (let z = left_of cur; b = BF z in
               case (if b > 0 then rotate_left_right cur z else rotate_right cur z) of
                 Inl e \<Rightarrow> Inl e
               | Inr z' \<Rightarrow> if b = 0 then Inr (unwind st z') else balance_up st z')
            else if bf_cur = 0 then Inr (unwind st (set_bf cur (- 1)))
            else balance_up st (set_bf cur 0)))"

text \<open>
  The search for the in-order successor in remove_node: \<open>path\<close> are the entries pushed above
  the entry of the removed node, \<open>base\<close> the number of entries below them.
\<close>

fun successor_descend :: "'a avtree \<Rightarrow> 'a frame list \<Rightarrow> nat
    \<Rightarrow> avstor_err + ('a avtree \<times> 'a frame list)" where
  "successor_descend Null path base = Inl PANIC"
| "successor_descend (AvNode Null b ofs nm r) path base = Inr (AvNode Null b ofs nm r, path)"
| "successor_descend (AvNode l b ofs nm r) path base =
     (if base + length path < AVSTOR_AVL_HEIGHT
      then successor_descend l (Frame (- 1) b ofs nm r # path) base
      else Inl AVSTOR_INTERNAL)"

fun remove_node :: "'a avtree \<Rightarrow> 'a frame list \<Rightarrow> avstor_err + 'a avtree" where
  "remove_node Null st = Inl PANIC"
| "remove_node (AvNode l b ofs nm r) st =
     (if l = Null \<and> r = Null then balance_up st Null
      else if l = Null \<or> r = Null then balance_up st (if l \<noteq> Null then l else r)
      else if length st < AVSTOR_AVL_HEIGHT then
        (case successor_descend r [] (length st + 1) of
           Inl e \<Rightarrow> Inl e
         | Inr (Null, path) \<Rightarrow> Inl PANIC
         | Inr (AvNode sl sb so sn sr, path) \<Rightarrow>
             balance_up (path @ Frame 1 b so sn l # st) sr)
      else Inl AVSTOR_INTERNAL)"

text \<open>
  The AVL invariant of the specification: the stored balance factor is the height of the right
  subtree minus that of the left one, it is -1, 0 or 1, and the heights differ by at most one.
\<close>

fun height :: "'a avtree \<Rightarrow> nat" where
  "height Null = 0"
| "height (AvNode l b ofs nm r) = max (height l) (height r) + 1"

fun avl_invariant :: "'a avtree \<Rightarrow> bool" where
  "avl_invariant Null = True"
| "avl_invariant (AvNode l b ofs nm r) =
     (b = int (height r) - int (height l) \<and> b \<in> {- 1, 0, 1}
      \<and> height l \<le> height r + 1 \<and> height r \<le> height l + 1
      \<and> avl_invariant l \<and> avl_invariant r)"


text \<open>A subtree whose height has just grown by an insertion below it.\<close>

definition grown :: "'a avtree \<Rightarrow> bool" where
  "grown t = (case t of Null \<Rightarrow> False | AvNode l b ofs nm r \<Rightarrow> b \<noteq> 0 \<or> (l = Null \<and> r = Null))"


record 'a avstor_key =
  buf :: 'a
  len :: nat
  comparer :: "'a \<Rightarrow> 'a \<Rightarrow> int"

definition find_node_with_backtrace :: "'a avstor_key \<Rightarrow> 'a avtree
    \<Rightarrow> avstor_err + ('a avtree \<times> 'a frame list)" where
  "find_node_with_backtrace key root = backtrace_descend (comparer key (buf key)) root []"


section \<open>The in-order cursor\<close>

text \<open>
  \<open>avstor_inorder\<close>: the stack \<open>ref\<close> of node offsets (the head of the list is the top) and
  the flags.  A stack entry is held as the node the offset names, with its subtrees.
\<close>

definition AVSTOR_VALUES :: nat where
  "AVSTOR_VALUES = 1"

definition AVSTOR_DESCENDING :: nat where
  "AVSTOR_DESCENDING = 2"

record 'a avstor_inorder =
  ref :: "'a avtree list"
  flags :: nat

fun node_ofs :: "'a avtree \<Rightarrow> nat" where
  "node_ofs Null = 0"
| "node_ofs (AvNode l b ofs nm r) = ofs"

definition inorder_state_push :: "'a avtree list \<Rightarrow> 'a avtree \<Rightarrow> 'a avtree list option" where
  "inorder_state_push st item =
     (if length st < AVSTOR_AVL_HEIGHT then Some (item # st) else None)"

text \<open>
  find_node_for_inorder: the result is the node found (\<open>Null\<close> for offset 0) and the stack;
  a failed push throws \<open>AVSTOR_CORRUPT\<close>.
\<close>

fun find_node_for_inorder :: "bool \<Rightarrow> ('a \<Rightarrow> int) \<Rightarrow> 'a avtree \<Rightarrow> 'a avtree list
    \<Rightarrow> avstor_err + ('a avtree \<times> 'a avtree list)" where
  "find_node_for_inorder is_descending cmp Null st = Inr (Null, st)"
| "find_node_for_inorder is_descending cmp (AvNode l b ofs nm r) st =
     (let c = cmp nm in
      if (if is_descending then - c else c) \<le> 0 then
        (case inorder_state_push st (AvNode l b ofs nm r) of
           None \<Rightarrow> Inl AVSTOR_CORRUPT
         | Some st' \<Rightarrow>
             if c = 0 then Inr (AvNode l b ofs nm r, st')
             else find_node_for_inorder is_descending cmp (if c < 0 then l else r) st')
      else if c = 0 then Inr (AvNode l b ofs nm r, st)
      else find_node_for_inorder is_descending cmp (if c < 0 then l else r) st)"

text \<open>
  inorder_next: the result code, the stack, and the offset written to \<open>out_node\<close> (if any).
\<close>

fun inorder_next :: "bool \<Rightarrow> 'a avtree list \<Rightarrow> 'a avtree
    \<Rightarrow> avstor_err \<times> 'a avtree list \<times> nat option" where
  "inorder_next is_descending st (AvNode l b ofs nm r) =
     (case inorder_state_push st (AvNode l b ofs nm r) of
        None \<Rightarrow> (AVSTOR_CORRUPT, st, None)
      | Some st' \<Rightarrow> inorder_next is_descending st' (if is_descending then r else l))"
| "inorder_next is_descending [] Null = (AVSTOR_NOTFOUND, [], None)"
| "inorder_next is_descending (tp # st) Null = (AVSTOR_OK, tp # st, Some (node_ofs tp))"

definition is_descending_flag :: "nat \<Rightarrow> bool" where
  "is_descending_flag fl = (fl AND AVSTOR_DESCENDING \<noteq> 0)"

text \<open>
  The part of avstor_inorder_first after the root reference of the tree has been read:
  \<open>t\<close> is the tree it leads to, \<open>key\<close> the optional seek key.
\<close>

definition inorder_first_in :: "'a avstor_key option \<Rightarrow> nat \<Rightarrow> 'a avtree
    \<Rightarrow> avstor_err \<times> 'a avstor_inorder \<times> nat option" where
  "inorder_first_in key fl t =
     (case key of
        Some k \<Rightarrow>
          (case find_node_for_inorder (is_descending_flag fl) (comparer k (buf k)) t [] of
             Inl e \<Rightarrow> (e, \<lparr>ref = [], flags = fl\<rparr>, None)
           | Inr (AvNode l b ofs nm r, st) \<Rightarrow> (AVSTOR_OK, \<lparr>ref = st, flags = fl\<rparr>, Some ofs)
           | Inr (Null, tp # st) \<Rightarrow>
               (AVSTOR_OK, \<lparr>ref = tp # st, flags = fl\<rparr>, Some (node_ofs tp))
           | Inr (Null, []) \<Rightarrow> (AVSTOR_NOTFOUND, \<lparr>ref = [], flags = fl\<rparr>, None))
      | None \<Rightarrow>
          (case inorder_next (is_descending_flag fl) [] t of
             (res, st, out) \<Rightarrow> (res, \<lparr>ref = st, flags = fl\<rparr>, out)))"

definition avstor_inorder_next :: "'a avstor_inorder
    \<Rightarrow> avstor_err \<times> 'a avstor_inorder \<times> nat option" where
  "avstor_inorder_next st =
     (case ref st of
        [] \<Rightarrow> (AVSTOR_NOTFOUND, st, Some 0)
      | node # rest \<Rightarrow>
          (case inorder_next (is_descending_flag (flags st)) rest
                  (if is_descending_flag (flags st) then left_of node else right_of node) of
             (res, st', out) \<Rightarrow> (res, st\<lparr>ref := st'\<rparr>, out)))"

text \<open>
  A caller that advances the cursor until it stops returning \<open>AVSTOR_OK\<close>: the offsets it
  was given, and the code that ended the iteration.  \<open>None\<close> when \<open>n\<close> calls were not enough.
\<close>

fun inorder_rest :: "nat \<Rightarrow> 'a avstor_inorder \<Rightarrow> (nat list \<times> avstor_err) option" where
  "inorder_rest 0 st = None"
| "inorder_rest (Suc n) st =
     (case avstor_inorder_next st of
        (res, st', out) \<Rightarrow>
          if res \<noteq> AVSTOR_OK then Some ([], res)
          else (case out of
                  None \<Rightarrow> Some ([], res)
                | Some ofs \<Rightarrow>
                    (case inorder_rest n st' of
                       None \<Rightarrow> None
                     | Some (xs, e) \<Rightarrow> Some (ofs # xs, e))))"

fun inorder :: "'a avtree \<Rightarrow> (nat \<times> 'a) list" where
  "inorder Null = []"
| "inorder (AvNode l b ofs nm r) = inorder l @ (ofs, nm) # inorder r"


section \<open>The store behind the public operations\<close>

text \<open>
  Node names and key buffers are byte strings.  The data portion of the node at an offset
  (\<open>union AvNodeData\<close>) is kept per offset, next to the node type of its header; the AVL
  linkage of the nodes is kept in the trees.  A key node holds the two root references of its
  children and its values.
\<close>

type_synonym bytes = "8 word list"

datatype avdata =
    VKey (subkey_root: "bytes avtree") (value_root: "bytes avtree") (level: nat)
  | V32 "32 word"
  | V64 "64 word"
  | VVar nat bytes
  | VLink nat

record avnode =
  ntype :: nat
  ndata :: avdata

text \<open>
  The store as the operations see it through the cache (\<open>root\<close>, \<open>root_links\<close> and
  \<open>pagecount\<close> of the header page, \<open>nodes\<close> in the data pages; \<open>modified\<close>: some cached data
  page is dirty), and as of the last commit (\<open>c_root\<close>, \<open>c_root_links\<close>, \<open>c_pagecount\<close>,
  \<open>c_nodes\<close>: the shadow header and the pages in the file).  The store is open without
  AVSTOR_OPEN_AUTOSAVE, so no modified page reaches the file before a commit, and reading a
  page of the file does not fail.  \<open>unmapped\<close> are the frames that rollback has left in the
  cache, see below.
\<close>

record avstore =
  root :: "bytes avtree"
  root_links :: "bytes avtree"
  nodes :: "nat \<Rightarrow> avnode option"
  pagecount :: nat
  modified :: bool
  c_root :: "bytes avtree"
  c_root_links :: "bytes avtree"
  c_nodes :: "nat \<Rightarrow> avnode option"
  c_pagecount :: nat
  unmapped :: "(bytes avtree \<times> bytes avtree \<times> (nat \<Rightarrow> avnode option)) list"

text \<open>
  rollback sets the \<open>offset\<close> of every cache item with a dirty frame to 0 and copies the
  shadow header back.  The operations then read those pages from the file again: they see
  the store of the last commit.  The frames themselves stay in the cache with their dirty
  bit and their \<open>page_offset\<close>, so the next avstor_commit writes them: \<open>unmapped\<close> keeps what
  they showed.
\<close>

definition rollback_store :: "avstore \<Rightarrow> avstore" where
  "rollback_store db =
     db\<lparr>root := c_root db, root_links := c_root_links db, nodes := c_nodes db,
        pagecount := c_pagecount db, modified := False,
        unmapped := (if modified db then (root db, root_links db, nodes db) # unmapped db
                     else unmapped db)\<rparr>"

definition AVSTOR_TYPE_KEY :: nat where "AVSTOR_TYPE_KEY = 0"
definition AVSTOR_TYPE_INT32 :: nat where "AVSTOR_TYPE_INT32 = 1"
definition AVSTOR_TYPE_INT64 :: nat where "AVSTOR_TYPE_INT64 = 2"
definition AVSTOR_TYPE_DOUBLE :: nat where "AVSTOR_TYPE_DOUBLE = 3"
definition AVSTOR_TYPE_STRING :: nat where "AVSTOR_TYPE_STRING = 4"
definition AVSTOR_TYPE_BINARY :: nat where "AVSTOR_TYPE_BINARY = 5"
definition AVSTOR_TYPE_LINK :: nat where "AVSTOR_TYPE_LINK = 8"

definition MAX_KEY_LEN :: nat where "MAX_KEY_LEN = 240"
definition MAX_BINARY_LEN :: nat where "MAX_BINARY_LEN = 250"
definition MAX_STRING_LEN :: nat where "MAX_STRING_LEN = 250"

definition is_invalid_avstor_key :: "'a avstor_key \<Rightarrow> bool" where
  "is_invalid_avstor_key key = (len key > MAX_KEY_LEN)"

text \<open>Where a root reference lives: in the header, or in the data of the key node at an offset.\<close>

datatype rootref = HdrRoot | HdrRootLinks | SubkeyRoot nat | ValueRoot nat

fun get_root :: "avstore \<Rightarrow> rootref \<Rightarrow> bytes avtree" where
  "get_root db HdrRoot = root db"
| "get_root db HdrRootLinks = root_links db"
| "get_root db (SubkeyRoot p) =
     (case nodes db p of
        None \<Rightarrow> Null
      | Some n \<Rightarrow> (case ndata n of VKey sk vr lv \<Rightarrow> sk | _ \<Rightarrow> Null))"
| "get_root db (ValueRoot p) =
     (case nodes db p of
        None \<Rightarrow> Null
      | Some n \<Rightarrow> (case ndata n of VKey sk vr lv \<Rightarrow> vr | _ \<Rightarrow> Null))"

fun set_root :: "avstore \<Rightarrow> rootref \<Rightarrow> bytes avtree \<Rightarrow> avstore" where
  "set_root db HdrRoot t = db\<lparr>root := t\<rparr>"
| "set_root db HdrRootLinks t = db\<lparr>root_links := t\<rparr>"
| "set_root db (SubkeyRoot p) t =
     (case nodes db p of
        None \<Rightarrow> db
      | Some n \<Rightarrow>
          (case ndata n of
             VKey sk vr lv \<Rightarrow> db\<lparr>nodes := (nodes db)(p \<mapsto> n\<lparr>ndata := VKey t vr lv\<rparr>)\<rparr>
           | _ \<Rightarrow> db))"
| "set_root db (ValueRoot p) t =
     (case nodes db p of
        None \<Rightarrow> db
      | Some n \<Rightarrow>
          (case ndata n of
             VKey sk vr lv \<Rightarrow> db\<lparr>nodes := (nodes db)(p \<mapsto> n\<lparr>ndata := VKey sk t lv\<rparr>)\<rparr>
           | _ \<Rightarrow> db))"

text \<open>
  lock_noderef and lock_keyref on a node handle (\<open>avstor_node.ref\<close>).  For an offset that
  holds no node, get_node throws \<open>AVSTOR_INVOPER\<close> when it finds the slot free, and
  cache_lookup throws the \<open>AVSTOR_IOERR\<close> of read_page when the page lies beyond the pages
  of the store, as the page of a node does that was created after the last commit and
  rolled back.
\<close>

definition lock_noderef :: "avstore \<Rightarrow> nat \<Rightarrow> avstor_err + avnode" where
  "lock_noderef db r =
     (if r = 0 then Inl AVSTOR_PARAM
      else (case nodes db r of
              None \<Rightarrow> Inl (if pagecount db * PAGE_SIZE \<le> r then AVSTOR_IOERR else AVSTOR_INVOPER)
            | Some n \<Rightarrow> Inr n))"

definition lock_keyref :: "avstore \<Rightarrow> nat \<Rightarrow> avstor_err + avnode" where
  "lock_keyref db r =
     (case lock_noderef db r of
        Inl e \<Rightarrow> Inl e
      | Inr n \<Rightarrow> if ntype n \<noteq> AVSTOR_TYPE_KEY then Inl AVSTOR_MISMATCH else Inr n)"

fun key_level :: "avnode \<Rightarrow> nat" where
  "key_level n = (case ndata n of VKey sk vr lv \<Rightarrow> lv | _ \<Rightarrow> 0)"

fun find_key :: "('a \<Rightarrow> int) \<Rightarrow> 'a avtree \<Rightarrow> 'a avtree" where
  "find_key cmp Null = Null"
| "find_key cmp (AvNode l b ofs nm r) =
     (let c = cmp nm in
      if c = 0 then AvNode l b ofs nm r
      else find_key cmp (if c < 0 then l else r))"

text \<open>
  The keys of the back-link tree: the four bytes of an offset, compared by offset_comparer.
\<close>

definition offset_bytes :: "nat \<Rightarrow> bytes" where
  "offset_bytes x = [of_nat x, of_nat (x div 256), of_nat (x div 65536), of_nat (x div 16777216)]"

fun bytes_offset :: "bytes \<Rightarrow> nat" where
  "bytes_offset (b0 # b1 # b2 # b3 # rest) =
     unat b0 + 256 * unat b1 + 65536 * unat b2 + 16777216 * unat b3"
| "bytes_offset _ = 0"

definition offset_comparer :: "bytes \<Rightarrow> bytes \<Rightarrow> int" where
  "offset_comparer v1 v2 =
     (let ofs1 = bytes_offset v1; ofs2 = bytes_offset v2
      in if ofs1 > ofs2 then 1 else if ofs1 < ofs2 then - 1 else 0)"

definition offset_key :: "nat \<Rightarrow> bytes avstor_key" where
  "offset_key x = \<lparr>buf = offset_bytes x, len = 4, comparer = offset_comparer\<rparr>"

definition key_cmp :: "'a avstor_key \<Rightarrow> 'a \<Rightarrow> int" where
  "key_cmp key = comparer key (buf key)"

text \<open>
  The name create_node gives a node: the node holds \<open>szname = align_node (SIZE_NODE_HDR +
  len) - SIZE_NODE_HDR\<close> bytes of name, the \<open>len\<close> bytes of the key followed by the zero bytes
  of the free space of the page.
\<close>

definition SIZE_NODE_HDR :: nat where
  "SIZE_NODE_HDR = 13"

definition align_node :: "nat \<Rightarrow> nat" where
  "align_node sz = (sz + 3) div 4 * 4"

definition key_name :: "bytes avstor_key \<Rightarrow> bytes" where
  "key_name key =
     take (len key) (buf key)
     @ replicate (align_node (SIZE_NODE_HDR + len key) - SIZE_NODE_HDR - len key) 0"

subsection \<open>Creating nodes\<close>

text \<open>
  create_node and insert_node for a node of type \<open>ty\<close> with data \<open>d\<close>, at the place the
  back-trace stack \<open>st\<close> of the tree at \<open>rr\<close> leads to.  \<open>alloc\<close> is what alloc_node does:
  the offset of the new node, or the error it throws; a node in a page past the last one
  has made create_page extend the store.  The page of the node is dirty afterwards.
\<close>

definition create_and_insert :: "avstore \<Rightarrow> avstor_err + nat \<Rightarrow> rootref \<Rightarrow> bytes avstor_key
    \<Rightarrow> bytes frame list \<Rightarrow> nat \<Rightarrow> avdata \<Rightarrow> avstor_err + (avstore \<times> nat)" where
  "create_and_insert db alloc rr key st ty d =
     (case alloc of
        Inl e \<Rightarrow> Inl e
      | Inr new \<Rightarrow>
          (case insert_node new (key_name key) st of
             Inl e \<Rightarrow> Inl e
           | Inr t' \<Rightarrow>
               Inr (set_root (db\<lparr>nodes := (nodes db)(new \<mapsto> \<lparr>ntype = ty, ndata = d\<rparr>),
                                 pagecount := max (pagecount db) (new div PAGE_SIZE + 1),
                                 modified := True\<rparr>) rr t',
                    new)))"

text \<open>
  The TRY block of avstor_create_key: the store it leaves, or the error thrown, and what
  \<open>out_key\<close> holds (\<open>None\<close>: the caller passed no \<open>out_key\<close>).
\<close>

definition create_key_try :: "avstore \<Rightarrow> avstor_err + nat \<Rightarrow> nat \<Rightarrow> bytes avstor_key
    \<Rightarrow> nat option \<Rightarrow> (avstor_err + avstore) \<times> nat option" where
  "create_key_try db alloc parent key out_key =
     (case (if parent \<noteq> 0
            then (case lock_keyref db parent of
                    Inl e \<Rightarrow> Inl e
                  | Inr pn \<Rightarrow> Inr (key_level pn + 1, SubkeyRoot parent))
            else Inr (1, HdrRoot)) of
        Inl e \<Rightarrow> (Inl e, out_key)
      | Inr (lvl, rr) \<Rightarrow>
          (case find_node_with_backtrace key (get_root db rr) of
             Inl e \<Rightarrow> (Inl e, out_key)
           | Inr (AvNode l b ofs nm r, st) \<Rightarrow>
               (Inl AVSTOR_EXISTS, map_option (\<lambda>_. ofs) out_key)
           | Inr (Null, st) \<Rightarrow>
               (case create_and_insert db alloc rr key st AVSTOR_TYPE_KEY
                        (VKey Null Null (lvl mod 65536)) of
                  Inl e \<Rightarrow> (Inl e, out_key)
                | Inr (db', new) \<Rightarrow> (Inr db', map_option (\<lambda>_. new) out_key))))"

definition avstor_create_key :: "avstore \<Rightarrow> avstor_err + nat \<Rightarrow> nat \<Rightarrow> bytes avstor_key
    \<Rightarrow> nat option \<Rightarrow> avstor_err \<times> avstore \<times> nat option" where
  "avstor_create_key db alloc parent key out_key =
     (if is_invalid_avstor_key key then (AVSTOR_PARAM, db, out_key)
      else (case create_key_try db alloc parent key out_key of
              (Inr db', out') \<Rightarrow> (AVSTOR_OK, db', out')
            | (Inl e, out') \<Rightarrow> (e, rollback_store db, out')))"

text \<open>
  The TRY block shared, statement for statement, by create_var_value, avstor_create_int32
  and create_fixed64_value: they differ in the node type and the data written.
\<close>

definition create_value_try :: "avstore \<Rightarrow> avstor_err + nat \<Rightarrow> nat \<Rightarrow> bytes avstor_key
    \<Rightarrow> nat \<Rightarrow> avdata \<Rightarrow> nat option \<Rightarrow> (avstor_err + avstore) \<times> nat option" where
  "create_value_try db alloc parent key ty d out_value =
     (case lock_keyref db parent of
        Inl e \<Rightarrow> (Inl e, out_value)
      | Inr pn \<Rightarrow>
          (case find_node_with_backtrace key (get_root db (ValueRoot parent)) of
             Inl e \<Rightarrow> (Inl e, out_value)
           | Inr (AvNode l b ofs nm r, st) \<Rightarrow> (Inl AVSTOR_EXISTS, out_value)
           | Inr (Null, st) \<Rightarrow>
               (case create_and_insert db alloc (ValueRoot parent) key st ty d of
                  Inl e \<Rightarrow> (Inl e, out_value)
                | Inr (db', new) \<Rightarrow> (Inr db', map_option (\<lambda>_. new) out_value))))"

definition create_value :: "avstore \<Rightarrow> avstor_err + nat \<Rightarrow> nat \<Rightarrow> bytes avstor_key
    \<Rightarrow> nat \<Rightarrow> avdata \<Rightarrow> nat option \<Rightarrow> avstor_err \<times> avstore \<times> nat option" where
  "create_value db alloc parent key ty d out_value =
     (if is_invalid_avstor_key key then (AVSTOR_PARAM, db, out_value)
      else (case create_value_try db alloc parent key ty d out_value of
              (Inr db', out') \<Rightarrow> (AVSTOR_OK, db', out')
            | (Inl e, out') \<Rightarrow> (e, rollback_store db, out')))"

definition create_var_value :: "avstore \<Rightarrow> avstor_err + nat \<Rightarrow> nat \<Rightarrow> bytes avstor_key
    \<Rightarrow> bytes \<Rightarrow> nat \<Rightarrow> nat \<Rightarrow> nat option \<Rightarrow> avstor_err \<times> avstore \<times> nat option" where
  "create_var_value db alloc parent key val valuesz ty out_value =
     create_value db alloc parent key ty (VVar (valuesz mod 256) (take valuesz val)) out_value"

text \<open>
  strlen_l on the bytes at \<open>str\<close>: the index of the first NUL among the first \<open>szbuf\<close> bytes,
  or \<open>szbuf\<close>.
\<close>

definition strlen_l :: "bytes \<Rightarrow> nat \<Rightarrow> nat" where
  "strlen_l str szbuf = length (takeWhile (\<lambda>c. c \<noteq> 0) (take szbuf str))"

definition avstor_create_string :: "avstore \<Rightarrow> avstor_err + nat \<Rightarrow> nat \<Rightarrow> bytes avstor_key
    \<Rightarrow> bytes \<Rightarrow> nat option \<Rightarrow> avstor_err \<times> avstore \<times> nat option" where
  "avstor_create_string db alloc parent key val out_value =
     (let n = strlen_l val (MAX_STRING_LEN + 1) + 1
      in if n = MAX_STRING_LEN + 1 then (AVSTOR_PARAM, db, out_value)
         else create_var_value db alloc parent key val n AVSTOR_TYPE_STRING out_value)"

definition avstor_create_binary :: "avstore \<Rightarrow> avstor_err + nat \<Rightarrow> nat \<Rightarrow> bytes avstor_key
    \<Rightarrow> bytes \<Rightarrow> nat \<Rightarrow> nat option \<Rightarrow> avstor_err \<times> avstore \<times> nat option" where
  "avstor_create_binary db alloc parent key val szvalue out_value =
     (if szvalue > MAX_BINARY_LEN then (AVSTOR_PARAM, db, out_value)
      else create_var_value db alloc parent key val szvalue AVSTOR_TYPE_BINARY out_value)"

definition avstor_create_int32 :: "avstore \<Rightarrow> avstor_err + nat \<Rightarrow> nat \<Rightarrow> bytes avstor_key
    \<Rightarrow> 32 word \<Rightarrow> nat option \<Rightarrow> avstor_err \<times> avstore \<times> nat option" where
  "avstor_create_int32 db alloc parent key val out_value =
     create_value db alloc parent key AVSTOR_TYPE_INT32 (V32 val) out_value"

definition create_fixed64_value :: "avstore \<Rightarrow> avstor_err + nat \<Rightarrow> nat \<Rightarrow> bytes avstor_key
    \<Rightarrow> 64 word \<Rightarrow> nat \<Rightarrow> nat option \<Rightarrow> avstor_err \<times> avstore \<times> nat option" where
  "create_fixed64_value db alloc parent key val ty out_value =
     create_value db alloc parent key ty (V64 val) out_value"

definition avstor_create_int64 :: "avstore \<Rightarrow> avstor_err + nat \<Rightarrow> nat \<Rightarrow> bytes avstor_key
    \<Rightarrow> 64 word \<Rightarrow> nat option \<Rightarrow> avstor_err \<times> avstore \<times> nat option" where
  "avstor_create_int64 db alloc parent key val out_value =
     create_fixed64_value db alloc parent key val AVSTOR_TYPE_INT64 out_value"

text \<open>avstor_create_double stores the 64 bits of the double \<open>val\<close>.\<close>

definition avstor_create_double :: "avstore \<Rightarrow> avstor_err + nat \<Rightarrow> nat \<Rightarrow> bytes avstor_key
    \<Rightarrow> 64 word \<Rightarrow> nat option \<Rightarrow> avstor_err \<times> avstore \<times> nat option" where
  "avstor_create_double db alloc parent key val out_value =
     create_fixed64_value db alloc parent key val AVSTOR_TYPE_DOUBLE out_value"


subsection \<open>Links and back-links\<close>

text \<open>
  create_backlink: \<open>alloc_key\<close> and \<open>alloc_value\<close> are the outcomes of its two create_node
  calls.  Exceptions pass through its FINALLY block to the caller.
\<close>

definition create_backlink :: "avstore \<Rightarrow> avstor_err + nat \<Rightarrow> avstor_err + nat \<Rightarrow> nat \<Rightarrow> nat
    \<Rightarrow> avstor_err + avstore" where
  "create_backlink db alloc_key alloc_value link target =
     (case find_node_with_backtrace (offset_key target) (root_links db) of
        Inl e \<Rightarrow> Inl e
      | Inr (found, st) \<Rightarrow>
          (case (case found of
                   Null \<Rightarrow>
                     create_and_insert db alloc_key HdrRootLinks (offset_key target) st
                       AVSTOR_TYPE_KEY (VKey Null Null 0)
                 | AvNode l b ofs nm r \<Rightarrow> Inr (db, ofs)) of
             Inl e \<Rightarrow> Inl e
           | Inr (db1, kofs) \<Rightarrow>
               (case find_node_with_backtrace (offset_key link)
                       (get_root db1 (ValueRoot kofs)) of
                  Inl e \<Rightarrow> Inl e
                | Inr (AvNode l b ofs nm r, st2) \<Rightarrow> Inl AVSTOR_INTERNAL
                | Inr (Null, st2) \<Rightarrow>
                    (case create_and_insert db1 alloc_value (ValueRoot kofs) (offset_key link)
                            st2 AVSTOR_TYPE_LINK (VLink link) of
                       Inl e \<Rightarrow> Inl e
                     | Inr (db2, vofs) \<Rightarrow> Inr db2))))"

definition create_link_try :: "avstore \<Rightarrow> avstor_err + nat \<Rightarrow> avstor_err + nat
    \<Rightarrow> avstor_err + nat \<Rightarrow> nat \<Rightarrow> bytes avstor_key \<Rightarrow> nat \<Rightarrow> nat option
    \<Rightarrow> (avstor_err + avstore) \<times> nat option" where
  "create_link_try db alloc alloc_key alloc_value parent key target out_value =
     (case lock_keyref db parent of
        Inl e \<Rightarrow> (Inl e, out_value)
      | Inr pn \<Rightarrow>
          (case find_node_with_backtrace key (get_root db (ValueRoot parent)) of
             Inl e \<Rightarrow> (Inl e, out_value)
           | Inr (AvNode l b ofs nm r, st) \<Rightarrow> (Inl AVSTOR_EXISTS, out_value)
           | Inr (Null, st) \<Rightarrow>
               (case create_and_insert db alloc (ValueRoot parent) key st AVSTOR_TYPE_LINK
                        (VLink target) of
                  Inl e \<Rightarrow> (Inl e, out_value)
                | Inr (db1, new) \<Rightarrow>
                    (case create_backlink db1 alloc_key alloc_value new target of
                       Inl e \<Rightarrow> (Inl e, out_value)
                     | Inr db2 \<Rightarrow> (Inr db2, map_option (\<lambda>_. new) out_value)))))"

definition avstor_create_link :: "avstore \<Rightarrow> avstor_err + nat \<Rightarrow> avstor_err + nat
    \<Rightarrow> avstor_err + nat \<Rightarrow> nat \<Rightarrow> bytes avstor_key \<Rightarrow> nat \<Rightarrow> nat option
    \<Rightarrow> avstor_err \<times> avstore \<times> nat option" where
  "avstor_create_link db alloc alloc_key alloc_value parent key target out_value =
     (if is_invalid_avstor_key key \<or> target = 0 then (AVSTOR_PARAM, db, out_value)
      else (case create_link_try db alloc alloc_key alloc_value parent key target out_value of
              (Inr db', out') \<Rightarrow> (AVSTOR_OK, db', out')
            | (Inl e, out') \<Rightarrow> (e, rollback_store db, out')))"

definition exists_link_to_node :: "avstore \<Rightarrow> nat \<Rightarrow> bool" where
  "exists_link_to_node db target_ofs =
     (find_key (key_cmp (offset_key target_ofs)) (root_links db) \<noteq> Null)"

text \<open>delete_node: remove_node on the tree at \<open>rr\<close>, then free_node.\<close>

definition delete_node :: "avstore \<Rightarrow> rootref \<Rightarrow> bytes avtree \<Rightarrow> bytes frame list
    \<Rightarrow> avstor_err + avstore" where
  "delete_node db rr node st =
     (case remove_node node st of
        Inl e \<Rightarrow> Inl e
      | Inr t' \<Rightarrow>
          Inr ((set_root db rr t')\<lparr>nodes := (nodes (set_root db rr t'))(node_ofs node := None),
                                   modified := True\<rparr>))"

text \<open>
  delete_backlink for the link node at \<open>link_ofs\<close> whose target is \<open>target\<close>.
\<close>

definition delete_backlink :: "avstore \<Rightarrow> nat \<Rightarrow> nat \<Rightarrow> avstor_err + avstore" where
  "delete_backlink db link_ofs target =
     (case find_node_with_backtrace (offset_key target) (root_links db) of
        Inl e \<Rightarrow> Inl e
      | Inr (Null, st) \<Rightarrow> Inr db
      | Inr (AvNode l b kofs nm r, st) \<Rightarrow>
          (case find_node_with_backtrace (offset_key link_ofs)
                  (get_root db (ValueRoot kofs)) of
             Inl e \<Rightarrow> Inl e
           | Inr (link_value, st_link) \<Rightarrow>
               (case (if link_value \<noteq> Null
                      then delete_node db (ValueRoot kofs) link_value st_link
                      else Inr db) of
                  Inl e \<Rightarrow> Inl e
                | Inr db1 \<Rightarrow>
                    if get_root db1 (ValueRoot kofs) = Null
                    then delete_node db1 HdrRootLinks (AvNode l b kofs nm r) st
                    else Inr db1)))"

subsection \<open>Finding and deleting\<close>

definition is_value_flag :: "nat \<Rightarrow> bool" where
  "is_value_flag fl = (fl AND AVSTOR_VALUES \<noteq> 0)"

text \<open>
  The root reference the flags and the parent handle select, as avstor_find, avstor_delete
  and avstor_inorder_first compute it: lock_keyref for a parent other than the root.
\<close>

definition select_root :: "avstore \<Rightarrow> nat \<Rightarrow> nat \<Rightarrow> avstor_err + rootref" where
  "select_root db parent fl =
     (if parent \<noteq> 0
      then (case lock_keyref db parent of
              Inl e \<Rightarrow> Inl e
            | Inr pn \<Rightarrow> Inr (if is_value_flag fl then ValueRoot parent else SubkeyRoot parent))
      else Inr (if is_value_flag fl then ValueRoot parent else HdrRoot))"

definition avstor_find :: "avstore \<Rightarrow> nat \<Rightarrow> bytes avstor_key \<Rightarrow> nat \<Rightarrow> nat
    \<Rightarrow> avstor_err \<times> nat" where
  "avstor_find db parent key fl out_key =
     (if is_invalid_avstor_key key \<or> (is_value_flag fl \<and> parent = 0)
      then (AVSTOR_PARAM, out_key)
      else (case select_root db parent fl of
              Inl e \<Rightarrow> (e, out_key)
            | Inr rr \<Rightarrow>
                (case find_key (key_cmp key) (get_root db rr) of
                   Null \<Rightarrow> (AVSTOR_NOTFOUND, out_key)
                 | AvNode l b ofs nm r \<Rightarrow> (AVSTOR_OK, ofs))))"

text \<open>
  The TRY block of avstor_delete: the result code and store of a normal exit, or the error
  thrown.  The build is single-threaded, so the upgrade of the lock cannot fail.
\<close>

definition delete_try :: "avstore \<Rightarrow> nat \<Rightarrow> nat \<Rightarrow> bytes avstor_key
    \<Rightarrow> avstor_err + (avstor_err \<times> avstore)" where
  "delete_try db parent fl key =
     (case select_root db parent fl of
        Inl e \<Rightarrow> Inl e
      | Inr rr \<Rightarrow>
          (case find_node_with_backtrace key (get_root db rr) of
             Inl e \<Rightarrow> Inl e
           | Inr (Null, st) \<Rightarrow> Inr (AVSTOR_NOTFOUND, db)
           | Inr (AvNode l b ofs nm r, st) \<Rightarrow>
               (case nodes db ofs of
                  None \<Rightarrow> Inl AVSTOR_INVOPER
                | Some n \<Rightarrow>
                    if ntype n = AVSTOR_TYPE_KEY
                       \<and> (get_root db (SubkeyRoot ofs) \<noteq> Null \<or> get_root db (ValueRoot ofs) \<noteq> Null)
                    then Inl AVSTOR_INVOPER
                    else if exists_link_to_node db ofs then Inl AVSTOR_INVOPER
                    else
                      (case (if ntype n = AVSTOR_TYPE_LINK
                             then (case ndata n of
                                     VLink target \<Rightarrow> delete_backlink db ofs target
                                   | _ \<Rightarrow> Inl PANIC)
                             else Inr db) of
                         Inl e \<Rightarrow> Inl e
                       | Inr db1 \<Rightarrow>
                           (case delete_node db1 rr (AvNode l b ofs nm r) st of
                              Inl e \<Rightarrow> Inl e
                            | Inr db2 \<Rightarrow> Inr (AVSTOR_OK, db2))))))"

definition avstor_delete :: "avstore \<Rightarrow> nat \<Rightarrow> nat \<Rightarrow> bytes avstor_key
    \<Rightarrow> avstor_err \<times> avstore" where
  "avstor_delete db parent fl key =
     (if is_invalid_avstor_key key \<or> (is_value_flag fl \<and> parent = 0) then (AVSTOR_PARAM, db)
      else (case delete_try db parent fl key of
              Inr (res, db') \<Rightarrow> (res, db')
            | Inl e \<Rightarrow> (e, rollback_store db)))"

subsection \<open>Starting the cursor\<close>

text \<open>\<open>st0\<close> is the cursor the caller passes in; it is initialised only after the checks.\<close>

definition avstor_inorder_first :: "bytes avstor_inorder \<Rightarrow> avstore \<Rightarrow> nat
    \<Rightarrow> bytes avstor_key option \<Rightarrow> nat \<Rightarrow> avstor_err \<times> bytes avstor_inorder \<times> nat option" where
  "avstor_inorder_first st0 db parent key fl =
     (if (case key of None \<Rightarrow> False | Some k \<Rightarrow> is_invalid_avstor_key k)
         \<or> (is_value_flag fl \<and> parent = 0)
      then (AVSTOR_PARAM, st0, None)
      else (case select_root db parent fl of
              Inl e \<Rightarrow> (e, \<lparr>ref = [], flags = fl\<rparr>, None)
            | Inr rr \<Rightarrow> inorder_first_in key fl (get_root db rr)))"

text \<open>
  A caller that starts from the result of avstor_inorder_first and advances the cursor until
  it stops returning \<open>AVSTOR_OK\<close>.
\<close>

definition first_then_rest :: "nat \<Rightarrow> avstor_err \<times> 'a avstor_inorder \<times> nat option
    \<Rightarrow> (nat list \<times> avstor_err) option" where
  "first_then_rest n x =
     (case x of
        (res, st, out) \<Rightarrow>
          if res \<noteq> AVSTOR_OK then Some ([], res)
          else (case out of
                  None \<Rightarrow> Some ([], res)
                | Some ofs \<Rightarrow>
                    (case inorder_rest n st of
                       None \<Rightarrow> None
                     | Some (xs, e) \<Rightarrow> Some (ofs # xs, e))))"

definition inorder_all :: "nat \<Rightarrow> bytes avstor_inorder \<Rightarrow> avstore \<Rightarrow> nat
    \<Rightarrow> bytes avstor_key option \<Rightarrow> nat \<Rightarrow> (nat list \<times> avstor_err) option" where
  "inorder_all n st0 db parent key fl =
     first_then_rest n (avstor_inorder_first st0 db parent key fl)"


section \<open>Notions used to state the properties\<close>

text \<open>
  The nodes of a tree from left to right, as pairs of offset and name, and the sequence a
  cursor has to produce: in that order, or reversed when \<open>d\<close> (descending) is set.
\<close>

definition seq_of :: "bool \<Rightarrow> 'a avtree \<Rightarrow> (nat \<times> 'a) list" where
  "seq_of d t = (if d then rev (inorder t) else inorder t)"

text \<open>
  The child a cursor turns to after it has returned a node (\<open>nxt\<close>) and the child it
  descends through to reach the first node (\<open>prv\<close>).
\<close>

definition nxt :: "bool \<Rightarrow> 'a avtree \<Rightarrow> 'a avtree" where
  "nxt d n = (if d then left_of n else right_of n)"

definition prv :: "bool \<Rightarrow> 'a avtree \<Rightarrow> 'a avtree" where
  "prv d n = (if d then right_of n else left_of n)"

text \<open>
  What a cursor with the stack \<open>st\<close> has still to return, and the bound that keeps its
  stack within \<open>AVSTOR_AVL_HEIGHT\<close> entries.
\<close>

fun pending :: "bool \<Rightarrow> 'a avtree list \<Rightarrow> (nat \<times> 'a) list" where
  "pending d [] = []"
| "pending d (Null # st) = pending d st"
| "pending d (AvNode l b ofs nm r # st) = (ofs, nm) # seq_of d (nxt d (AvNode l b ofs nm r)) @ pending d st"

fun stack_ok :: "bool \<Rightarrow> 'a avtree list \<Rightarrow> bool" where
  "stack_ok d [] = True"
| "stack_ok d (n # st) = (n \<noteq> Null \<and> length st + height (nxt d n) \<le> AVSTOR_AVL_HEIGHT \<and> stack_ok d st)"

text \<open>
  A tree is ordered by a key function \<open>kf\<close> on names when the keys of its nodes increase
  strictly from left to right; a comparer partially applied to the sought name agrees with
  \<open>kf\<close> at the key \<open>k\<close> when its sign is that of the comparison of \<open>k\<close> with the key of its
  argument.  \<open>seek_keeps\<close> holds for the nodes a cursor started at \<open>k\<close> has to return.
\<close>

definition bst_by :: "('a \<Rightarrow> 'k::linorder) \<Rightarrow> 'a avtree \<Rightarrow> bool" where
  "bst_by kf t = sorted_wrt (<) (map (\<lambda>x. kf (snd x)) (inorder t))"

definition cmp_agrees :: "('a \<Rightarrow> int) \<Rightarrow> ('a \<Rightarrow> 'k::linorder) \<Rightarrow> 'k \<Rightarrow> bool" where
  "cmp_agrees c kf k = (\<forall>n. (c n < 0 \<longleftrightarrow> k < kf n) \<and> (c n = 0 \<longleftrightarrow> k = kf n))"

definition seek_keeps :: "bool \<Rightarrow> ('a \<Rightarrow> 'k::linorder) \<Rightarrow> 'k \<Rightarrow> nat \<times> 'a \<Rightarrow> bool" where
  "seek_keeps d kf k x = (if d then kf (snd x) \<le> k else k \<le> kf (snd x))"

text \<open>
  The nodes of the whole tree that lie before and after the subtree a back-trace stack leads
  to.
\<close>

fun before_of :: "'a frame list \<Rightarrow> (nat \<times> 'a) list" where
  "before_of [] = []"
| "before_of (Frame c b ofs nm s # st) =
     before_of st @ (if c < 0 then [] else inorder s @ [(ofs, nm)])"

fun after_of :: "'a frame list \<Rightarrow> (nat \<times> 'a) list" where
  "after_of [] = []"
| "after_of (Frame c b ofs nm s # st) =
     (if c < 0 then (ofs, nm) # inorder s else []) @ after_of st"

text \<open>
  The back-link tree records the link at offset \<open>link\<close> to the node at offset \<open>target\<close>: the
  tree at \<open>root_links\<close> has a key node named by the target, and the values of that key node
  include a node named by the link.  \<open>backlink_key_empty\<close>: the key node named by the target
  is there without any value.
\<close>

definition backlink_present :: "avstore \<Rightarrow> nat \<Rightarrow> nat \<Rightarrow> bool" where
  "backlink_present db target link =
     (case find_key (key_cmp (offset_key target)) (root_links db) of
        Null \<Rightarrow> False
      | AvNode l b kofs nm r \<Rightarrow>
          find_key (key_cmp (offset_key link)) (get_root db (ValueRoot kofs)) \<noteq> Null)"


text \<open>
  The back-link tree and the values trees of its key nodes are ordered by the offsets that
  name their nodes.
\<close>

definition links_sorted :: "avstore \<Rightarrow> bool" where
  "links_sorted db =
     (bst_by bytes_offset (root_links db)
      \<and> (\<forall>x \<in> set (inorder (root_links db)).
            bst_by bytes_offset (get_root db (ValueRoot (fst x)))))"

text \<open>
  The nodes of the back-link tree: its key nodes, and the value nodes under them.  A link
  node in the sense of the public interface is a node of type \<open>AVSTOR_TYPE_LINK\<close> that is
  not one of those value nodes (create_backlink gives them the same type); its \<open>vLink.link\<close>
  is its target.
\<close>

definition backlink_keys :: "avstore \<Rightarrow> nat set" where
  "backlink_keys db = fst ` set (inorder (root_links db))"

definition backlink_values :: "avstore \<Rightarrow> nat set" where
  "backlink_values db =
     (\<Union>k \<in> backlink_keys db. fst ` set (inorder (get_root db (ValueRoot k))))"

definition link_node :: "avstore \<Rightarrow> nat \<Rightarrow> nat \<Rightarrow> bool" where
  "link_node db lnk target =
     (nodes db lnk = Some \<lparr>ntype = AVSTOR_TYPE_LINK, ndata = VLink target\<rparr>
      \<and> lnk \<notin> backlink_values db)"

text \<open>
  What the operations keep true of a store.  Every tree is an AVL tree that the back-trace
  stack can hold; the back-link trees are ordered by offset; the key nodes of the back-link
  tree are key nodes of level 0 without child keys, the value nodes under them are of type
  \<open>AVSTOR_TYPE_LINK\<close>; offsets are 32-bit values (\<open>avstor_off\<close>); and every link node is
  recorded in the back-link tree under its target.
\<close>

definition avl_ok :: "'a avtree \<Rightarrow> bool" where
  "avl_ok t = (avl_invariant t \<and> height t \<le> AVSTOR_AVL_HEIGHT)"

definition trees_avl :: "avstore \<Rightarrow> bool" where
  "trees_avl db = (\<forall>rr. avl_ok (get_root db rr))"

definition backlinks_typed :: "avstore \<Rightarrow> bool" where
  "backlinks_typed db =
     ((\<forall>k \<in> backlink_keys db.
          \<exists>vr. nodes db k = Some \<lparr>ntype = AVSTOR_TYPE_KEY, ndata = VKey Null vr 0\<rparr>)
      \<and> (\<forall>v \<in> backlink_values db.
          \<exists>l. nodes db v = Some \<lparr>ntype = AVSTOR_TYPE_LINK, ndata = VLink l\<rparr>))"

definition offsets_32bit :: "avstore \<Rightarrow> bool" where
  "offsets_32bit db =
     (\<forall>ofs n. nodes db ofs = Some n \<longrightarrow>
        ofs < 2 ^ 32 \<and> (\<forall>target. ndata n = VLink target \<longrightarrow> target < 2 ^ 32))"

definition links_recorded :: "avstore \<Rightarrow> bool" where
  "links_recorded db =
     (\<forall>lnk target. link_node db lnk target \<longrightarrow> backlink_present db target lnk)"

definition store_wf :: "avstore \<Rightarrow> bool" where
  "store_wf db =
     (trees_avl db \<and> links_sorted db \<and> backlinks_typed db \<and> offsets_32bit db
      \<and> links_recorded db)"



section \<open>Example stores\<close>

text \<open>
  The store of a new file, and a store with two keys under the root (created with the names
  1 and 2 as four-byte offsets, at 4122 and 4124), a link named 7 at 8218 under the second key that
  targets the first, and its back-link: the key node 12314 of the back-link tree, named by
  the target, with the value node 12316 named by the link.  Nothing is uncommitted.
\<close>

definition empty_store :: avstore where
  "empty_store = \<lparr>root = Null, root_links = Null, nodes = (\<lambda>_. None), pagecount = 1,
                   modified = False,
                   c_root = Null, c_root_links = Null, c_nodes = (\<lambda>_. None), c_pagecount = 1,
                   unmapped = []\<rparr>"

definition link_nodes :: "nat \<Rightarrow> avnode option" where
  "link_nodes =
     [4122 \<mapsto> \<lparr>ntype = AVSTOR_TYPE_KEY, ndata = VKey Null Null 1\<rparr>,
      4124 \<mapsto> \<lparr>ntype = AVSTOR_TYPE_KEY,
                ndata = VKey Null (AvNode Null 0 8218 (key_name (offset_key 7)) Null) 1\<rparr>,
      8218 \<mapsto> \<lparr>ntype = AVSTOR_TYPE_LINK, ndata = VLink 4122\<rparr>,
      12314 \<mapsto> \<lparr>ntype = AVSTOR_TYPE_KEY,
                 ndata = VKey Null (AvNode Null 0 12316 (key_name (offset_key 8218)) Null) 0\<rparr>,
      12316 \<mapsto> \<lparr>ntype = AVSTOR_TYPE_LINK, ndata = VLink 8218\<rparr>]"

definition link_store :: avstore where
  "link_store =
     \<lparr>root = AvNode Null 1 4122 (key_name (offset_key 1))
               (AvNode Null 0 4124 (key_name (offset_key 2)) Null),
      root_links = AvNode Null 0 12314 (key_name (offset_key 4122)) Null,
      nodes = link_nodes,
      pagecount = 4,
      modified = False,
      c_root = AvNode Null 1 4122 (key_name (offset_key 1))
                 (AvNode Null 0 4124 (key_name (offset_key 2)) Null),
      c_root_links = AvNode Null 0 12314 (key_name (offset_key 4122)) Null,
      c_nodes = link_nodes,
      c_pagecount = 4,
      unmapped = []\<rparr>"


section \<open>The page cache, the file, commit and rollback\<close>

text \<open>
  The \<open>status\<close> byte of a page is byte 16, \<open>page_offset\<close> the 32-bit word at bytes 8..11 and
  \<open>lock_count\<close> the one at bytes 4..7.
\<close>

definition PAGE_DIRTY :: "8 word" where
  "PAGE_DIRTY = 0x80"

definition set_page_dirty :: "page \<Rightarrow> page" where
  "set_page_dirty p = p(16 := p 16 OR PAGE_DIRTY)"

definition set_page_clean :: "page \<Rightarrow> page" where
  "set_page_clean p = p(16 := p 16 AND NOT PAGE_DIRTY)"

definition is_page_dirty :: "page \<Rightarrow> bool" where
  "is_page_dirty p = (p 16 AND PAGE_DIRTY \<noteq> 0)"

definition page_offset :: "page \<Rightarrow> nat" where
  "page_offset p = unat (p 8) + 256 * unat (p 9) + 65536 * unat (p 10) + 16777216 * unat (p 11)"

definition lock_count_is_zero :: "page \<Rightarrow> bool" where
  "lock_count_is_zero p = (p 4 = 0 \<and> p 5 = 0 \<and> p 6 = 0 \<and> p 7 = 0)"

definition clear_lock_count :: "page \<Rightarrow> page" where
  "clear_lock_count p = p(4 := 0, 5 := 0, 6 := 0, 7 := 0)"

text \<open>
  The file as the store writes it: the calls of io_write so far, each with its position and
  the frame written (\<open>wlog\<close>, oldest first), and the number of calls of io_commit
  (\<open>commits\<close>).  What the operating system answers is given with the file: \<open>wres pos\<close> is
  what io_write returns for a write at \<open>pos\<close> (the bytes written, or -1), \<open>commit_ok\<close>
  whether fsync succeeds.
\<close>

record avfile =
  wlog :: "(nat \<times> page) list"
  commits :: nat
  wres :: "nat \<Rightarrow> int"
  commit_ok :: bool

definition io_write :: "avfile \<Rightarrow> page \<Rightarrow> nat \<Rightarrow> int \<times> avfile" where
  "io_write f b pos = (wres f pos, f\<lparr>wlog := wlog f @ [(pos, b)]\<rparr>)"

definition io_commit :: "avfile \<Rightarrow> bool \<times> avfile" where
  "io_commit f = (commit_ok f, f\<lparr>commits := commits f + 1\<rparr>)"

text \<open>
  \<open>CacheItem\<close>: \<open>item_page\<close> is the frame \<open>page\<close> points to (\<open>None\<close> for a null pointer),
  \<open>item_offset\<close> the field \<open>offset\<close>, 0 for an item that holds no valid page.  A row is the
  array \<open>items\<close> of its \<open>capacity\<close> items; the cache has \<open>l2_len\<close> rows, the header frame and
  the shadow copy \<open>old_header\<close>.
\<close>

record cache_item =
  item_page :: "page option"
  item_offset :: nat
  load_time :: nat

record page_cache =
  rows :: "cache_item list list"
  header :: page
  old_header :: page

record avstor =
  av_file :: avfile
  cache :: page_cache

definition write_page :: "avfile \<Rightarrow> page \<Rightarrow> avstor_err \<times> page \<times> avfile" where
  "write_page f p =
     (if is_page_dirty p then
        (let p1 = update_page_checksum (set_page_clean p);
             (res, f') = io_write f p1 (page_offset p1)
         in if res < int PAGE_SIZE then (AVSTOR_IOERR, set_page_dirty p1, f')
            else (AVSTOR_OK, p1, f'))
      else (AVSTOR_OK, p, f))"

text \<open>
  The inner loop of avstor_commit over the items of a row from \<open>col\<close> on: it leaves the row at
  the first item without a frame, and the failure of write_page is thrown.
\<close>

fun commit_row :: "avfile \<Rightarrow> cache_item list \<Rightarrow> avstor_err \<times> cache_item list \<times> avfile" where
  "commit_row f [] = (AVSTOR_OK, [], f)"
| "commit_row f (it # its) =
     (case item_page it of
        None \<Rightarrow> (AVSTOR_OK, it # its, f)
      | Some p \<Rightarrow>
          (case write_page f p of
             (res, p', f') \<Rightarrow>
               if res \<noteq> AVSTOR_OK then (res, it\<lparr>item_page := Some p'\<rparr> # its, f')
               else (case commit_row f' its of
                       (res', its', f'') \<Rightarrow> (res', it\<lparr>item_page := Some p'\<rparr> # its', f''))))"

text \<open>The outer loop over the rows.\<close>

fun commit_rows :: "avfile \<Rightarrow> cache_item list list
    \<Rightarrow> avstor_err \<times> cache_item list list \<times> avfile" where
  "commit_rows f [] = (AVSTOR_OK, [], f)"
| "commit_rows f (row # rws) =
     (case commit_row f row of
        (res, row', f') \<Rightarrow>
          if res \<noteq> AVSTOR_OK then (res, row' # rws, f')
          else (case commit_rows f' rws of
                  (res', rws', f'') \<Rightarrow> (res', row' # rws', f'')))"

text \<open>avstor_commit: its CATCH block only takes the error code as the result.\<close>

definition avstor_commit :: "avstor \<Rightarrow> bool \<Rightarrow> avstor_err \<times> avstor" where
  "avstor_commit db flush =
     (case commit_rows (av_file db) (rows (cache db)) of
        (res, rows', f1) \<Rightarrow>
          if res \<noteq> AVSTOR_OK
          then (res, db\<lparr>av_file := f1, cache := (cache db)\<lparr>rows := rows'\<rparr>\<rparr>)
          else
            (case write_page f1 (header (cache db)) of
               (res2, h', f2) \<Rightarrow>
                 if res2 \<noteq> AVSTOR_OK
                 then (res2, db\<lparr>av_file := f2, cache := (cache db)\<lparr>rows := rows', header := h'\<rparr>\<rparr>)
                 else if flush \<and> \<not> fst (io_commit f2)
                 then (AVSTOR_IOERR,
                       db\<lparr>av_file := snd (io_commit f2),
                          cache := (cache db)\<lparr>rows := rows', header := h'\<rparr>\<rparr>)
                 else (AVSTOR_OK,
                       db\<lparr>av_file := (if flush then snd (io_commit f2) else f2),
                          cache := (cache db)\<lparr>rows := rows', header := h', old_header := h'\<rparr>\<rparr>)))"

text \<open>
  rollback: the body of its loops for one item, and the copy of the shadow header.  It visits
  every item of every row.
\<close>

definition rollback_item :: "cache_item \<Rightarrow> cache_item" where
  "rollback_item it =
     (case item_page it of
        None \<Rightarrow> it
      | Some p \<Rightarrow>
          if page_offset p \<noteq> 0
          then it\<lparr>item_offset := (if is_page_dirty p then 0 else item_offset it),
                  item_page := Some (if \<not> lock_count_is_zero p then clear_lock_count p else p)\<rparr>
          else it)"

definition rollback :: "avstor \<Rightarrow> avstor" where
  "rollback db =
     db\<lparr>cache := (cache db)\<lparr>rows := map (map rollback_item) (rows (cache db)),
                              header := old_header (cache db)\<rparr>\<rparr>"

text \<open>
  cache_lookup_scan_line: the frame of the item of the row that holds the page at \<open>page_ofs\<close>,
  if the scan finds one before it meets an item without a frame.
\<close>

fun cache_lookup_scan_line :: "cache_item list \<Rightarrow> nat \<Rightarrow> page option" where
  "cache_lookup_scan_line [] page_ofs = None"
| "cache_lookup_scan_line (it # its) page_ofs =
     (case item_page it of
        None \<Rightarrow> None
      | Some p \<Rightarrow>
          if item_offset it = 0 then cache_lookup_scan_line its page_ofs
          else if item_offset it = page_ofs then Some p
          else cache_lookup_scan_line its page_ofs)"

section \<open>Notions for commit\<close>





text \<open>
  What write_page hands to io_write for a dirty frame, the entry of the file's log for it,
  and the frame a successful write_page leaves.
\<close>

definition flushed :: "page \<Rightarrow> page" where
  "flushed p = update_page_checksum (set_page_clean p)"

definition log_entry :: "page \<Rightarrow> nat \<times> page" where
  "log_entry p = (page_offset p, flushed p)"





section \<open>Example caches\<close>

text \<open>
  A frame that is zero but for the second byte of \<open>page_offset\<close> and the status byte; a file
  nothing has been written to, given with the answers of io_write; a cache of two rows that
  holds the modified pages at 4096 and 8192, the unmodified page at 12288 and a modified
  header; and a store whose cache holds the modified pages at 4096 and 8192 in one row, its
  header unmodified.
\<close>

definition example_frame :: "8 word \<Rightarrow> 8 word \<Rightarrow> page" where
  "example_frame hi st = (\<lambda>_. 0)(9 := hi, 16 := st)"

definition example_file :: "(nat \<Rightarrow> int) \<Rightarrow> avfile" where
  "example_file w = \<lparr>wlog = [], commits = 0, wres = w, commit_ok = True\<rparr>"


definition dirty_page_store :: "(nat \<Rightarrow> int) \<Rightarrow> avstor" where
  "dirty_page_store w =
     \<lparr>av_file = example_file w,
      cache = \<lparr>rows = [[\<lparr>item_page = Some (example_frame 0x10 0x80), item_offset = 4096,
                          load_time = 1\<rparr>,
                        \<lparr>item_page = Some (example_frame 0x20 0x80), item_offset = 8192,
                          load_time = 2\<rparr>]],
               header = example_frame 0 0, old_header = example_frame 0 0\<rparr>\<rparr>"


section \<open>Properties of the page checksum\<close>

lemma checksum_loop_sums:
  "unat a + 255 * cnt < 2 ^ 32 \<Longrightarrow> unat b + cnt * (unat a + 255 * cnt) < 2 ^ 32 \<Longrightarrow>
   checksum_loop page cp cnt a b = (a', b') \<Longrightarrow>
   adler_sums (map page [cp ..< cp + cnt]) (unat a mod 65521) (unat b mod 65521)
     = (unat a' mod 65521, unat b' mod 65521)"
proof (induction cnt arbitrary: cp a b)
  case 0
  then show ?case by simp
next
  case (Suc cnt)
  let ?x = "page cp"
  let ?a1 = "a + ucast ?x"
  let ?b1 = "b + ?a1"
  have xb: "unat ?x \<le> 255"
    using unsigned_less[of ?x, where ?'a = nat] by simp
  have ua: "unat ?a1 = unat a + unat ?x"
    using Suc.prems(1) xb
    by (simp add: unat_word_ariths unsigned_ucast_eq take_bit_nat_eq_self)
  have ub: "unat ?b1 = unat b + unat ?a1"
  proof -
    have "unat b + (unat a + unat ?x) \<le> unat b + Suc cnt * (unat a + 255 * Suc cnt)"
      using xb by (simp add: add_mono trans_le_add1)
    then have "unat b + (unat a + unat ?x) < 2 ^ 32"
      using Suc.prems(2) by linarith
    then show ?thesis using ua by (simp add: unat_word_ariths)
  qed
  have p1: "unat ?a1 + 255 * cnt < 2 ^ 32"
    using ua xb Suc.prems(1) by simp
  have "unat ?b1 + cnt * (unat ?a1 + 255 * cnt) \<le> unat b + Suc cnt * (unat a + 255 * Suc cnt)"
  proof -
    have "unat ?a1 + 255 * cnt \<le> unat a + 255 * Suc cnt"
      using ua xb by simp
    then have "cnt * (unat ?a1 + 255 * cnt) \<le> cnt * (unat a + 255 * Suc cnt)"
      by (rule mult_le_mono2)
    moreover have "unat ?a1 \<le> unat a + 255 * Suc cnt"
      using ua xb by simp
    ultimately have "unat ?a1 + cnt * (unat ?a1 + 255 * cnt)
        \<le> (unat a + 255 * Suc cnt) + cnt * (unat a + 255 * Suc cnt)"
      by (rule add_mono[rotated])
    also have "\<dots> = Suc cnt * (unat a + 255 * Suc cnt)"
      by simp
    finally show ?thesis using ub by linarith
  qed
  then have p2: "unat ?b1 + cnt * (unat ?a1 + 255 * cnt) < 2 ^ 32"
    using Suc.prems(2) by linarith
  have step: "checksum_loop page (cp + 1) cnt ?a1 ?b1 = (a', b')"
    using Suc.prems(3) by (simp add: Let_def)
  have ih: "adler_sums (map page [cp + 1 ..< cp + 1 + cnt]) (unat ?a1 mod 65521)
      (unat ?b1 mod 65521) = (unat a' mod 65521, unat b' mod 65521)"
    using Suc.IH[OF p1 p2 step] .
  have l: "[cp ..< cp + Suc cnt] = cp # [cp + 1 ..< cp + 1 + cnt]"
    by (simp add: upt_rec)
  have m1: "(unat a mod 65521 + unat ?x) mod 65521 = unat ?a1 mod 65521"
    using ua by (simp add: mod_add_left_eq)
  have m2: "(unat b mod 65521 + unat ?a1 mod 65521) mod 65521 = unat ?b1 mod 65521"
    using ub by (simp add: mod_add_eq)
  show ?case unfolding l using ih m1 m2 by (simp add: Let_def)
qed

lemma push16_or_nat:
  fixes m n :: nat
  assumes "n < 65536"
  shows "push_bit 16 m OR n = m * 65536 + n"
proof -
  have n: "n = take_bit 16 n"
    using assms by (simp add: take_bit_nat_eq_self)
  have "push_bit 16 m + take_bit 16 n = push_bit 16 m OR take_bit 16 n"
    by (rule disjunctive_add_eq_or)
      (simp add: bit_eq_iff bit_and_iff bit_push_bit_iff bit_take_bit_iff)
  then show ?thesis using n by (simp add: push_bit_eq_mult)
qed

lemma push16_or_word:
  fixes a b :: "32 word"
  assumes "unat a < 65536" "unat b < 65536"
  shows "unat (push_bit 16 b OR a) = unat b * 65536 + unat a"
proof -
  have "unat b * 65536 < 2 ^ 32"
    using assms(2) by simp
  then have "unat (push_bit 16 b) = push_bit 16 (unat b)"
    using unat_mult_lem[of b "65536::32 word"] by (simp add: push_bit_eq_mult)
  then show ?thesis
    using push16_or_nat[OF assms(1), of "unat b"] by (simp add: unsigned_or_eq)
qed

lemma compute_page_checksum_adler:
  "unat (compute_page_checksum page) = adler32_spec (page_bytes page)"
proof -
  obtain a b where l: "checksum_loop page 0 PAGE_SIZE 1 0 = (a, b)"
    by (cases "checksum_loop page 0 PAGE_SIZE 1 0")
  have s: "adler_sums (map page [0 ..< 0 + PAGE_SIZE]) (unat (1::32 word) mod 65521)
      (unat (0::32 word) mod 65521) = (unat a mod 65521, unat b mod 65521)"
    by (rule checksum_loop_sums[OF _ _ l]) (simp_all add: PAGE_SIZE_def)
  have ma: "unat (a mod MOD_ADLER) = unat a mod 65521"
    by (simp add: MOD_ADLER_def unat_mod)
  have mb: "unat (b mod MOD_ADLER) = unat b mod 65521"
    by (simp add: MOD_ADLER_def unat_mod)
  have "unat (push_bit 16 (b mod MOD_ADLER) OR (a mod MOD_ADLER))
      = unat (b mod MOD_ADLER) * 65536 + unat (a mod MOD_ADLER)"
  proof (rule push16_or_word)
    have "unat a mod 65521 < 65521" by simp
    then show "unat (a mod MOD_ADLER) < 65536" unfolding ma by linarith
    have "unat b mod 65521 < 65521" by simp
    then show "unat (b mod MOD_ADLER) < 65536" unfolding mb by linarith
  qed
  then show ?thesis
    using s l by (simp add: compute_page_checksum_def adler32_spec_def page_bytes_def ma mb)
qed


lemma checksum_bytes_join:
  fixes v :: "32 word"
  shows "ucast (ucast v :: 8 word) OR push_bit 8 (ucast (ucast (drop_bit 8 v) :: 8 word))
     OR push_bit 16 (ucast (ucast (drop_bit 16 v) :: 8 word))
     OR push_bit 24 (ucast (ucast (drop_bit 24 v) :: 8 word)) = v"
  apply (rule bit_eqI)
  apply (simp add: bit_simps)
  apply (auto simp: not_le not_less)
  subgoal for n by (cases "24 \<le> n") simp_all
  done

lemma get_set_checksum: "get_checksum (set_checksum v page) = v"
  unfolding get_checksum_def set_checksum_def
  using checksum_bytes_join[of v] by simp

text \<open>
  C9.  For every page content, compute_page_checksum returns the Adler-32 of the 4096 bytes
  (sums reduced modulo 65521 after every byte, value \<open>(b << 16) | a\<close>), although the code
  reduces only once after the loop; and the checksum update_page_checksum stores is that value
  for the page with its checksum field zeroed.
\<close>

theorem compute_page_checksum_is_adler32:
  "unat (compute_page_checksum page) = adler32_spec (page_bytes page)
   \<and> unat (get_checksum (update_page_checksum page))
       = adler32_spec (page_bytes (set_checksum 0 page))"
  by (simp add: compute_page_checksum_adler update_page_checksum_def Let_def get_set_checksum)


section \<open>Insertion and deletion keep the AVL invariant\<close>

lemma descend_unwind:
  "backtrace_descend cmp t st = Inr (sub, st') \<Longrightarrow> unwind st' sub = unwind st t"
  by (induction cmp t st rule: backtrace_descend.induct)
     (auto simp: Let_def split: if_splits)

lemma avl_unwind_sub: "avl_invariant (unwind st t) \<Longrightarrow> avl_invariant t"
proof (induction st arbitrary: t)
  case Nil then show ?case by simp
next
  case (Cons f st)
  then have "avl_invariant (node_of f t)" by simp
  then show ?case by (cases f) (auto split: if_splits)
qed

lemma avl_unwind_replace:
  "avl_invariant (unwind st t) \<Longrightarrow> avl_invariant t' \<Longrightarrow> height t' = height t \<Longrightarrow>
   avl_invariant (unwind st t')"
proof (induction st arbitrary: t t')
  case Nil then show ?case by simp
next
  case (Cons f st)
  have a: "avl_invariant (node_of f t)" using Cons.prems(1) avl_unwind_sub[of st "node_of f t"] by simp
  have b: "avl_invariant (node_of f t')" using a Cons.prems(2,3) by (cases f) (auto split: if_splits)
  have c: "height (node_of f t') = height (node_of f t)" using Cons.prems(3) by (cases f) auto
  show ?case using Cons.IH[OF _ b c] Cons.prems(1) by simp
qed

lemma height_0_iff[simp]: "height t = 0 \<longleftrightarrow> t = Null"
  by (cases t) auto



lemma rotate_left_avl:
  assumes "avl_invariant a" "avl_invariant z" "height z = height a + 2" "BF z = 0 \<or> BF z = 1"
    and "rotate_left (AvNode a xb xo xn xr) z = Inr z'"
  shows "avl_invariant z' \<and> height z' = (if BF z = 0 then height z + 1 else height z)"
proof (cases z)
  case Null
  then show ?thesis using assms by simp
next
  case (AvNode t23 zb zo zn c)
  show ?thesis
  proof (cases "zb = 0")
    case True
    then show ?thesis using assms AvNode by (clarsimp simp: max_def split: if_splits)
  next
    case False
    then show ?thesis using assms AvNode by (clarsimp simp: max_def split: if_splits)
  qed
qed

lemma rotate_right_left_avl:
  assumes "avl_invariant a" "avl_invariant z" "height z = height a + 2" "BF z = - 1"
    and "rotate_right_left (AvNode a xb xo xn xr) z = Inr z'"
  shows "avl_invariant z' \<and> height z' = height z"
proof (cases z)
  case Null
  then show ?thesis using assms by simp
next
  case z: (AvNode y zb zo zn c)
  show ?thesis
  proof (cases y)
    case Null
    then show ?thesis using assms z by simp
  next
    case y: (AvNode t2 yb yo yn t3)
    consider "yb = 0" | "yb = 1" | "yb = - 1" using assms(2) z y by auto
    then show ?thesis
    proof cases
      case 1
      then show ?thesis using assms z y by (clarsimp simp: max_def split: if_splits)
    next
      case 2
      then show ?thesis using assms z y by (clarsimp simp: max_def split: if_splits)
    next
      case 3
      then show ?thesis using assms z y by (clarsimp simp: max_def split: if_splits)
    qed
  qed
qed


lemma rotate_right_avl:
  assumes "avl_invariant c" "avl_invariant z" "height z = height c + 2" "BF z = 0 \<or> BF z = - 1"
    and "rotate_right (AvNode xl xb xo xn c) z = Inr z'"
  shows "avl_invariant z' \<and> height z' = (if BF z = 0 then height z + 1 else height z)"
proof (cases z)
  case Null
  then show ?thesis using assms by simp
next
  case (AvNode a zb zo zn t23)
  show ?thesis
  proof (cases "zb = 0")
    case True
    then show ?thesis using assms AvNode by (clarsimp simp: max_def split: if_splits)
  next
    case False
    then show ?thesis using assms AvNode by (clarsimp simp: max_def split: if_splits)
  qed
qed

lemma rotate_left_right_avl:
  assumes "avl_invariant c" "avl_invariant z" "height z = height c + 2" "BF z = 1"
    and "rotate_left_right (AvNode xl xb xo xn c) z = Inr z'"
  shows "avl_invariant z' \<and> height z' = height z"
proof (cases z)
  case Null
  then show ?thesis using assms by simp
next
  case z: (AvNode a zb zo zn y)
  show ?thesis
  proof (cases y)
    case Null
    then show ?thesis using assms z by simp
  next
    case y: (AvNode t3 yb yo yn t2)
    consider "yb = 0" | "yb = 1" | "yb = - 1" using assms(2) z y by auto
    then show ?thesis
    proof cases
      case 1
      then show ?thesis using assms z y by (clarsimp simp: max_def split: if_splits)
    next
      case 2
      then show ?thesis using assms z y by (clarsimp simp: max_def split: if_splits)
    next
      case 3
      then show ?thesis using assms z y by (clarsimp simp: max_def split: if_splits)
    qed
  qed
qed

lemma grown_BF: 
  assumes "grown t" "avl_invariant t" "height t \<ge> 2"
  shows "BF t = 1 \<or> BF t = - 1"
proof (cases t)
  case Null
  then show ?thesis using assms(3) by simp
next
  case (AvNode l b ofs nm r)
  have "\<not> (l = Null \<and> r = Null)" using assms(3) AvNode by auto
  then have "b \<noteq> 0" using assms(1) AvNode by (simp add: grown_def) blast
  moreover have "b = - 1 \<or> b = 0 \<or> b = 1" using assms(2) unfolding AvNode by (simp del: of_nat_diff) linarith
  ultimately show ?thesis using AvNode by auto
qed

lemma avl_node_of:
  "avl_invariant (node_of (Frame c b ofs nm s) t) \<longleftrightarrow>
     (avl_invariant s \<and> avl_invariant t \<and> b \<in> {- 1, 0, 1} \<and>
      b = (if c < 0 then int (height s) - int (height t) else int (height t) - int (height s)))"
  by (auto)

lemma height_node_of:
  "height (node_of (Frame c b ofs nm s) t) = max (height s) (height t) + 1"
  by auto

lemma balance_down_avl:
  "avl_invariant (unwind st t) \<Longrightarrow> avl_invariant t' \<Longrightarrow> height t' = height t + 1 \<Longrightarrow> grown t' \<Longrightarrow>
   balance_down st t' = Inr res \<Longrightarrow> avl_invariant res"
proof (induction st arbitrary: t t')
  case Nil then show ?case by simp
next
  case (Cons f st)
  obtain c b ofs nm s where f: "f = Frame c b ofs nm s" by (cases f)
  have u: "avl_invariant (unwind st (node_of f t))" using Cons.prems(1) by simp
  have old: "avl_invariant (node_of f t)" using u by (rule avl_unwind_sub)
  have s: "avl_invariant s" and bs: "b = 0 \<or> b = 1 \<or> b = - 1"
    and bv: "b = (if c < 0 then int (height s) - int (height t) else int (height t) - int (height s))"
    using old unfolding f avl_node_of by auto
  let ?c = "if c < 0 then - 1 else (1::int)"
  show ?case
  proof (cases "b = 0")
    case True
    let ?n = "set_bf (node_of f t') ?c"
    have 1: "avl_invariant ?n" using s bv Cons.prems(2,3) f True by (clarsimp split: if_splits)
    have 2: "height ?n = height (node_of f t) + 1" using bv Cons.prems(3) f True by (clarsimp simp: max_def split: if_splits)
    have 3: "grown ?n" using f by (auto simp: grown_def)
    have 4: "balance_down st ?n = Inr res" using Cons.prems(5) f True by (auto simp: Let_def)
    show ?thesis using Cons.IH[OF u 1 2 3 4] .
  next
    case False
    then have b: "b = 1 \<or> b = - 1" using bs by auto
    show ?thesis
    proof (cases "?c + b = 0")
      case True
      let ?n = "set_bf (node_of f t') 0"
      have 1: "avl_invariant ?n" using s bv Cons.prems(2,3) f True b by (clarsimp split: if_splits)
      have 2: "height ?n = height (node_of f t)" using bv Cons.prems(3) f True b by (clarsimp simp: max_def split: if_splits)
      have 4: "res = unwind st ?n" using Cons.prems(5) f True False by (auto simp: Let_def split: if_splits)
      show ?thesis unfolding 4 using avl_unwind_replace[OF u 1 2] .
    next
      case nz: False
      show ?thesis
      proof (cases "b > 0")
        case True
        then have b1: "b = 1" and c0: "\<not> c < 0" using b nz by (auto split: if_splits)
        have ht: "height t' = height s + 2" using bv b1 c0 Cons.prems(3) by simp
        have bz: "BF t' = 1 \<or> BF t' = - 1" using grown_BF[OF Cons.prems(4,2)] ht by simp
        obtain z' where r: "(if BF t' > 0 then rotate_left (AvNode s 1 ofs nm t') t' else rotate_right_left (AvNode s 1 ofs nm t') t') = Inr z'"
          and res: "res = unwind st z'"
          using Cons.prems(5) f b1 c0 by (auto simp: Let_def split: sum.splits if_splits)
        have "avl_invariant z' \<and> height z' = height t'"
        proof (cases "BF t' > 0")
          case True
          then show ?thesis using rotate_left_avl[OF s Cons.prems(2) ht, of 1 ofs nm t' z'] r bz by auto
        next
          case False
          then show ?thesis using rotate_right_left_avl[OF s Cons.prems(2) ht, of 1 ofs nm t' z'] r bz by auto
        qed
        moreover have "height (node_of f t) = height t'" using bv f b1 c0 Cons.prems(3) by (simp add: max_def)
        ultimately show ?thesis unfolding res using avl_unwind_replace[OF u, of z'] by simp
      next
        case False
        then have b1: "b = - 1" and c0: "c < 0" using b nz by (auto split: if_splits)
        have ht: "height t' = height s + 2" using bv b1 c0 Cons.prems(3) by simp
        have bz: "BF t' = 1 \<or> BF t' = - 1" using grown_BF[OF Cons.prems(4,2)] ht by simp
        obtain z' where r: "(if BF t' < 0 then rotate_right (AvNode t' (- 1) ofs nm s) t' else rotate_left_right (AvNode t' (- 1) ofs nm s) t') = Inr z'"
          and res: "res = unwind st z'"
          using Cons.prems(5) f b1 c0 by (auto simp: Let_def split: sum.splits if_splits)
        have "avl_invariant z' \<and> height z' = height t'"
        proof (cases "BF t' < 0")
          case True
          then show ?thesis using rotate_right_avl[OF s Cons.prems(2) ht, of t' "- 1" ofs nm z'] r bz by auto
        next
          case False
          then show ?thesis using rotate_left_right_avl[OF s Cons.prems(2) ht, of t' "- 1" ofs nm z'] r bz by auto
        qed
        moreover have "height (node_of f t) = height t'" using bv f b1 c0 Cons.prems(3) by (simp add: max_def)
        ultimately show ?thesis unfolding res using avl_unwind_replace[OF u, of z'] by simp
      qed
    qed
  qed
qed


lemma avl_invariant_BF:
  assumes "avl_invariant t"
  shows "BF t = - 1 \<or> BF t = 0 \<or> BF t = 1"
proof (cases t)
  case Null
  then show ?thesis by simp
next
  case (AvNode l b ofs nm r)
  have "b \<in> {- 1, 0, 1}" using assms unfolding AvNode avl_invariant.simps by (elim conjE)
  then show ?thesis unfolding AvNode by simp
qed

lemma balance_up_avl:
  "avl_invariant (unwind st t) \<Longrightarrow> avl_invariant t' \<Longrightarrow> height t = height t' + 1 \<Longrightarrow>
   balance_up st t' = Inr res \<Longrightarrow> avl_invariant res"
proof (induction st arbitrary: t t' res)
  case Nil then show ?case by simp
next
  case (Cons f st)
  obtain c b ofs nm s where f: "f = Frame c b ofs nm s" by (cases f)
  have u: "avl_invariant (unwind st (node_of f t))" using Cons.prems(1) by simp
  have old: "avl_invariant (node_of f t)" using u by (rule avl_unwind_sub)
  have s: "avl_invariant s" and bs: "b = 0 \<or> b = 1 \<or> b = - 1"
    and bv: "b = (if c < 0 then int (height s) - int (height t) else int (height t) - int (height s))"
    using old unfolding f avl_node_of by auto
  show ?case
  proof (cases "c < 0")
    case c: True

    show ?thesis
    proof (cases "b > 0")
      case True
      then have b1: "b = 1" using bs by auto
      have hs: "height s = height t' + 2" using bv b1 c Cons.prems(3) by simp
      have bzs: "BF s = - 1 \<or> BF s = 0 \<or> BF s = 1" using s by (rule avl_invariant_BF)
      have oldh: "height (node_of f t) = height s + 1" using bv f b1 c Cons.prems(3) by (simp add: max_def)
      show ?thesis
      proof (cases "BF s < 0")
        case True
        then have bz: "BF s = - 1" using bzs by auto
        obtain z' where r: "rotate_right_left (AvNode t' 1 ofs nm s) s = Inr z'" and res: "balance_up st z' = Inr res"
          using Cons.prems(4) f b1 c True by (auto simp: Let_def split: sum.splits if_splits)
        have z: "avl_invariant z' \<and> height z' = height s"
          using rotate_right_left_avl[OF Cons.prems(2) s hs bz, of 1 ofs nm s z'] r by simp
        show ?thesis using Cons.IH[OF u _ _ res] z oldh by simp
      next
        case False
        then have bz: "BF s = 0 \<or> BF s = 1" using bzs by auto
        obtain z' where r: "rotate_left (AvNode t' 1 ofs nm s) s = Inr z'"
          and res: "if BF s = 0 then res = unwind st z' else balance_up st z' = Inr res"
          using Cons.prems(4) f b1 c False by (auto simp: Let_def split: sum.splits if_splits)
        have z: "avl_invariant z' \<and> height z' = (if BF s = 0 then height s + 1 else height s)"
          using rotate_left_avl[OF Cons.prems(2) s hs bz, of 1 ofs nm s z'] r by simp
        show ?thesis
        proof (cases "BF s = 0")
          case True
          then show ?thesis using res z oldh avl_unwind_replace[OF u, of z'] by simp
        next
          case False
          then show ?thesis using Cons.IH[OF u _ _ , of z'] res z oldh by simp
        qed
      qed
    next
      case False
      then have b: "b = 0 \<or> b = - 1" using bs by auto
      show ?thesis
      proof (cases "b = 0")
        case True
        let ?n = "set_bf (node_of f t') 1"
        have 1: "avl_invariant ?n" using s bv Cons.prems(2,3) f True c by (clarsimp split: if_splits)
        have 2: "height ?n = height (node_of f t)" using bv Cons.prems(3) f True c by (clarsimp simp: max_def split: if_splits)
        have 4: "res = unwind st ?n" using Cons.prems(4) f True c by (auto simp: Let_def split: if_splits)
        show ?thesis unfolding 4 using avl_unwind_replace[OF u 1 2] .
      next
        case b0: False
        then have bm: "b = - 1" using b by auto
        let ?n = "set_bf (node_of f t') 0"
        have 1: "avl_invariant ?n" using s bv Cons.prems(2,3) f bm c by (clarsimp split: if_splits)
        have 2: "height (node_of f t) = height ?n + 1" using bv Cons.prems(3) f bm c by (clarsimp simp: max_def split: if_splits)
        have 4: "balance_up st ?n = Inr res" using Cons.prems(4) f bm c by (auto simp: Let_def split: if_splits)
        show ?thesis using Cons.IH[OF u 1 2 4] .
      qed
    qed
  next
    case c: False

    show ?thesis
    proof (cases "b < 0")
      case True
      then have b1: "b = - 1" using bs by auto
      have hs: "height s = height t' + 2" using bv b1 c Cons.prems(3) by simp
      have bzs: "BF s = - 1 \<or> BF s = 0 \<or> BF s = 1" using s by (rule avl_invariant_BF)
      have oldh: "height (node_of f t) = height s + 1" using bv f b1 c Cons.prems(3) by (simp add: max_def)
      show ?thesis
      proof (cases "BF s > 0")
        case True
        then have bz: "BF s = 1" using bzs by auto
        obtain z' where r: "rotate_left_right (AvNode s (- 1) ofs nm t') s = Inr z'" and res: "balance_up st z' = Inr res"
          using Cons.prems(4) f b1 c True by (auto simp: Let_def split: sum.splits if_splits)
        have z: "avl_invariant z' \<and> height z' = height s"
          using rotate_left_right_avl[OF Cons.prems(2) s hs bz, of s "- 1" ofs nm z'] r by simp
        show ?thesis using Cons.IH[OF u _ _ res] z oldh by simp
      next
        case False
        then have bz: "BF s = 0 \<or> BF s = - 1" using bzs by auto
        obtain z' where r: "rotate_right (AvNode s (- 1) ofs nm t') s = Inr z'"
          and res: "if BF s = 0 then res = unwind st z' else balance_up st z' = Inr res"
          using Cons.prems(4) f b1 c False by (auto simp: Let_def split: sum.splits if_splits)
        have z: "avl_invariant z' \<and> height z' = (if BF s = 0 then height s + 1 else height s)"
          using rotate_right_avl[OF Cons.prems(2) s hs bz, of s "- 1" ofs nm z'] r by simp
        show ?thesis
        proof (cases "BF s = 0")
          case True
          then show ?thesis using res z oldh avl_unwind_replace[OF u, of z'] by simp
        next
          case False
          then show ?thesis using Cons.IH[OF u _ _ , of z'] res z oldh by simp
        qed
      qed
    next
      case False
      then have b: "b = 0 \<or> b = 1" using bs by auto
      show ?thesis
      proof (cases "b = 0")
        case True
        let ?n = "set_bf (node_of f t') (- 1)"
        have 1: "avl_invariant ?n" using s bv Cons.prems(2,3) f True c by (clarsimp split: if_splits)
        have 2: "height ?n = height (node_of f t)" using bv Cons.prems(3) f True c by (clarsimp simp: max_def split: if_splits)
        have 4: "res = unwind st ?n" using Cons.prems(4) f True c by (auto simp: Let_def split: if_splits)
        show ?thesis unfolding 4 using avl_unwind_replace[OF u 1 2] .
      next
        case b0: False
        then have bm: "b = 1" using b by auto
        let ?n = "set_bf (node_of f t') 0"
        have 1: "avl_invariant ?n" using s bv Cons.prems(2,3) f bm c by (clarsimp split: if_splits)
        have 2: "height (node_of f t) = height ?n + 1" using bv Cons.prems(3) f bm c by (clarsimp simp: max_def split: if_splits)
        have 4: "balance_up st ?n = Inr res" using Cons.prems(4) f bm c by (auto simp: Let_def split: if_splits)
        show ?thesis using Cons.IH[OF u 1 2 4] .
      qed
    qed
  qed
qed


lemma unwind_append: "unwind (p @ q) t = unwind q (unwind p t)"
  by (induction p arbitrary: t) auto

lemma successor_descend_props:
  "successor_descend r path base = Inr (succ, path') \<Longrightarrow>
   (\<exists>sb so sn sr. succ = AvNode Null sb so sn sr) \<and> unwind path' succ = unwind path r"
  by (induction r path base rule: successor_descend.induct) (auto split: if_splits)

lemma remove_node_avl:
  assumes "avl_invariant (unwind st (AvNode l b ofs nm r))"
    and "remove_node (AvNode l b ofs nm r) st = Inr res"
  shows "avl_invariant res"
proof -
  have n: "avl_invariant (AvNode l b ofs nm r)" using assms(1) by (rule avl_unwind_sub)
  then have l: "avl_invariant l" and r: "avl_invariant r" by simp_all
  show ?thesis
  proof (cases "l = Null \<or> r = Null")
    case True
    let ?sub = "if l = Null \<and> r = Null then Null else if l \<noteq> Null then l else r"
    have 1: "balance_up st ?sub = Inr res" using assms(2) True by (auto split: if_splits)
    have 2: "avl_invariant ?sub" using l r by auto
    have 3: "height (AvNode l b ofs nm r) = height ?sub + 1" using True by auto
    show ?thesis using balance_up_avl[OF assms(1) 2 3 1] .
  next
    case False
    then obtain succ path where d: "successor_descend r [] (length st + 1) = Inr (succ, path)"
      using assms(2) by (auto split: if_splits sum.splits)
    obtain sb so sn sr where succ: "succ = AvNode Null sb so sn sr" and up: "unwind path succ = r"
      using successor_descend_props[OF d] by auto
    have 1: "balance_up (path @ Frame 1 b so sn l # st) sr = Inr res"
      using assms(2) False d succ by (auto split: if_splits)
    have m: "avl_invariant (AvNode l b so sn r)" using n unfolding avl_invariant.simps .
    have "avl_invariant (unwind st (AvNode l b so sn r))"
      using avl_unwind_replace[OF assms(1) m] by simp
    then have 0: "avl_invariant (unwind (path @ Frame 1 b so sn l # st) succ)"
      using up by (simp add: unwind_append)
    have "avl_invariant succ" using 0 by (rule avl_unwind_sub)
    then have 2: "avl_invariant sr" and 3: "height succ = height sr + 1"
      unfolding succ by simp_all
    show ?thesis using balance_up_avl[OF 0 2 3 1] .
  qed
qed


lemma rotate_left_total:
  "z \<noteq> Null \<Longrightarrow> \<exists>z'. rotate_left (AvNode a xb xo xn xr) z = Inr z'"
  by (cases z) auto

lemma rotate_right_total:
  "z \<noteq> Null \<Longrightarrow> \<exists>z'. rotate_right (AvNode xl xb xo xn c) z = Inr z'"
  by (cases z) auto

lemma rotate_right_left_total:
  "z \<noteq> Null \<Longrightarrow> left_of z \<noteq> Null \<Longrightarrow> \<exists>z'. rotate_right_left (AvNode a xb xo xn xr) z = Inr z'"
  by (cases z; cases "left_of z") auto

lemma rotate_left_right_total:
  "z \<noteq> Null \<Longrightarrow> right_of z \<noteq> Null \<Longrightarrow> \<exists>z'. rotate_left_right (AvNode xl xb xo xn c) z = Inr z'"
  by (cases z; cases "right_of z") auto

lemma avl_left_heavy: "avl_invariant z \<Longrightarrow> BF z = - 1 \<Longrightarrow> left_of z \<noteq> Null"
  by (cases z) auto

lemma avl_right_heavy: "avl_invariant z \<Longrightarrow> BF z = 1 \<Longrightarrow> right_of z \<noteq> Null"
  by (cases z) auto

lemma balance_down_total:
  "avl_invariant (unwind st t) \<Longrightarrow> avl_invariant t' \<Longrightarrow> height t' = height t + 1 \<Longrightarrow> grown t' \<Longrightarrow>
   \<exists>res. balance_down st t' = Inr res"
proof (induction st arbitrary: t t')
  case Nil then show ?case by simp
next
  case (Cons f st)
  obtain c b ofs nm s where f: "f = Frame c b ofs nm s" by (cases f)
  have u: "avl_invariant (unwind st (node_of f t))" using Cons.prems(1) by simp
  have old: "avl_invariant (node_of f t)" using u by (rule avl_unwind_sub)
  have s: "avl_invariant s" and bs: "b = 0 \<or> b = 1 \<or> b = - 1"
    and bv: "b = (if c < 0 then int (height s) - int (height t) else int (height t) - int (height s))"
    using old unfolding f avl_node_of by auto
  let ?c = "if c < 0 then - 1 else (1::int)"
  show ?case
  proof (cases "b = 0")
    case True
    let ?n = "set_bf (node_of f t') ?c"
    have 1: "avl_invariant ?n" using s bv Cons.prems(2,3) f True by (clarsimp split: if_splits)
    have 2: "height ?n = height (node_of f t) + 1" using bv Cons.prems(3) f True by (clarsimp simp: max_def split: if_splits)
    have 3: "grown ?n" using f by (auto simp: grown_def)
    have 4: "balance_down (f # st) t' = balance_down st ?n" using f True by (auto simp: Let_def)
    show ?thesis unfolding 4 using Cons.IH[OF u 1 2 3] .
  next
    case False
    then have b: "b = 1 \<or> b = - 1" using bs by auto
    show ?thesis
    proof (cases "?c + b = 0")
      case True
      then show ?thesis using f False by (auto simp: Let_def split: if_splits)
    next
      case nz: False
      show ?thesis
      proof (cases "b > 0")
        case True
        then have b1: "b = 1" and c0: "\<not> c < 0" using b nz by (auto split: if_splits)
        have ht: "height t' = height s + 2" using bv b1 c0 Cons.prems(3) by simp
        then have tn: "t' \<noteq> Null" by auto
        have bz: "BF t' = 1 \<or> BF t' = - 1" using grown_BF[OF Cons.prems(4,2)] ht by simp
        have "\<exists>z'. (if BF t' > 0 then rotate_left (AvNode s 1 ofs nm t') t'
                     else rotate_right_left (AvNode s 1 ofs nm t') t') = Inr z'"
          using rotate_left_total[OF tn] rotate_right_left_total[OF tn avl_left_heavy[OF Cons.prems(2)]] bz
          by auto
        then show ?thesis using f b1 c0 by (auto simp: Let_def)
      next
        case False
        then have b1: "b = - 1" and c0: "c < 0" using b nz by (auto split: if_splits)
        have ht: "height t' = height s + 2" using bv b1 c0 Cons.prems(3) by simp
        then have tn: "t' \<noteq> Null" by auto
        have bz: "BF t' = 1 \<or> BF t' = - 1" using grown_BF[OF Cons.prems(4,2)] ht by simp
        have "\<exists>z'. (if BF t' < 0 then rotate_right (AvNode t' (- 1) ofs nm s) t'
                     else rotate_left_right (AvNode t' (- 1) ofs nm s) t') = Inr z'"
          using rotate_right_total[OF tn] rotate_left_right_total[OF tn avl_right_heavy[OF Cons.prems(2)]] bz
          by auto
        then show ?thesis using f b1 c0 by (auto simp: Let_def)
      qed
    qed
  qed
qed

lemma balance_up_total:
  "avl_invariant (unwind st t) \<Longrightarrow> avl_invariant t' \<Longrightarrow> height t = height t' + 1 \<Longrightarrow>
   \<exists>res. balance_up st t' = Inr res"
proof (induction st arbitrary: t t')
  case Nil then show ?case by simp
next
  case (Cons f st)
  obtain c b ofs nm s where f: "f = Frame c b ofs nm s" by (cases f)
  have u: "avl_invariant (unwind st (node_of f t))" using Cons.prems(1) by simp
  have old: "avl_invariant (node_of f t)" using u by (rule avl_unwind_sub)
  have s: "avl_invariant s" and bs: "b = 0 \<or> b = 1 \<or> b = - 1"
    and bv: "b = (if c < 0 then int (height s) - int (height t) else int (height t) - int (height s))"
    using old unfolding f avl_node_of by auto
  show ?case
  proof (cases "c < 0")
    case c: True
    show ?thesis
    proof (cases "b > 0")
      case True
      then have b1: "b = 1" using bs by auto
      have hs: "height s = height t' + 2" using bv b1 c Cons.prems(3) by simp
      then have sn: "s \<noteq> Null" by auto
      have bzs: "BF s = - 1 \<or> BF s = 0 \<or> BF s = 1" using s by (rule avl_invariant_BF)
      have oldh: "height (node_of f t) = height s + 1" using bv f b1 c Cons.prems(3) by (simp add: max_def)
      show ?thesis
      proof (cases "BF s < 0")
        case True
        then have bz: "BF s = - 1" using bzs by auto
        obtain z' where r: "rotate_right_left (AvNode t' 1 ofs nm s) s = Inr z'"
          using rotate_right_left_total[OF sn avl_left_heavy[OF s bz]] by blast
        have z: "avl_invariant z' \<and> height z' = height s"
          using rotate_right_left_avl[OF Cons.prems(2) s hs bz, of 1 ofs nm s z'] r by simp
        have e: "balance_up (f # st) t' = balance_up st z'"
          using f b1 c True r by (simp add: Let_def)
        show ?thesis unfolding e using Cons.IH[OF u, of z'] z oldh by simp
      next
        case False
        then have bz: "BF s = 0 \<or> BF s = 1" using bzs by auto
        obtain z' where r: "rotate_left (AvNode t' 1 ofs nm s) s = Inr z'"
          using rotate_left_total[OF sn] by blast
        have z: "avl_invariant z' \<and> height z' = (if BF s = 0 then height s + 1 else height s)"
          using rotate_left_avl[OF Cons.prems(2) s hs bz, of 1 ofs nm s z'] r by simp
        have e: "balance_up (f # st) t' = (if BF s = 0 then Inr (unwind st z') else balance_up st z')"
          using f b1 c False r by (simp add: Let_def)
        show ?thesis
        proof (cases "BF s = 0")
          case True
          then show ?thesis using e by simp
        next
          case False
          then show ?thesis using e Cons.IH[OF u, of z'] z oldh by simp
        qed
      qed
    next
      case False
      then have b: "b = 0 \<or> b = - 1" using bs by auto
      show ?thesis
      proof (cases "b = 0")
        case True
        then show ?thesis using f c by (simp add: Let_def)
      next
        case b0: False
        then have bm: "b = - 1" using b by auto
        let ?n = "set_bf (node_of f t') 0"
        have 1: "avl_invariant ?n" using s bv Cons.prems(2,3) f bm c by (clarsimp split: if_splits)
        have 2: "height (node_of f t) = height ?n + 1" using bv Cons.prems(3) f bm c by (clarsimp simp: max_def split: if_splits)
        have e: "balance_up (f # st) t' = balance_up st ?n" using f bm c by (simp add: Let_def)
        show ?thesis unfolding e using Cons.IH[OF u 1 2] .
      qed
    qed
  next
    case c: False
    show ?thesis
    proof (cases "b < 0")
      case True
      then have b1: "b = - 1" using bs by auto
      have hs: "height s = height t' + 2" using bv b1 c Cons.prems(3) by simp
      then have sn: "s \<noteq> Null" by auto
      have bzs: "BF s = - 1 \<or> BF s = 0 \<or> BF s = 1" using s by (rule avl_invariant_BF)
      have oldh: "height (node_of f t) = height s + 1" using bv f b1 c Cons.prems(3) by (simp add: max_def)
      show ?thesis
      proof (cases "BF s > 0")
        case True
        then have bz: "BF s = 1" using bzs by auto
        obtain z' where r: "rotate_left_right (AvNode s (- 1) ofs nm t') s = Inr z'"
          using rotate_left_right_total[OF sn avl_right_heavy[OF s bz]] by blast
        have z: "avl_invariant z' \<and> height z' = height s"
          using rotate_left_right_avl[OF Cons.prems(2) s hs bz, of s "- 1" ofs nm z'] r by simp
        have e: "balance_up (f # st) t' = balance_up st z'"
          using f b1 c True r by (simp add: Let_def)
        show ?thesis unfolding e using Cons.IH[OF u, of z'] z oldh by simp
      next
        case False
        then have bz: "BF s = 0 \<or> BF s = - 1" using bzs by auto
        obtain z' where r: "rotate_right (AvNode s (- 1) ofs nm t') s = Inr z'"
          using rotate_right_total[OF sn] by blast
        have z: "avl_invariant z' \<and> height z' = (if BF s = 0 then height s + 1 else height s)"
          using rotate_right_avl[OF Cons.prems(2) s hs bz, of s "- 1" ofs nm z'] r by simp
        have e: "balance_up (f # st) t' = (if BF s = 0 then Inr (unwind st z') else balance_up st z')"
          using f b1 c False r by (simp add: Let_def)
        show ?thesis
        proof (cases "BF s = 0")
          case True
          then show ?thesis using e by simp
        next
          case False
          then show ?thesis using e Cons.IH[OF u, of z'] z oldh by simp
        qed
      qed
    next
      case False
      then have b: "b = 0 \<or> b = 1" using bs by auto
      show ?thesis
      proof (cases "b = 0")
        case True
        then show ?thesis using f c by (simp add: Let_def)
      next
        case b0: False
        then have bm: "b = 1" using b by auto
        let ?n = "set_bf (node_of f t') 0"
        have 1: "avl_invariant ?n" using s bv Cons.prems(2,3) f bm c by (clarsimp split: if_splits)
        have 2: "height (node_of f t) = height ?n + 1" using bv Cons.prems(3) f bm c by (clarsimp simp: max_def split: if_splits)
        have e: "balance_up (f # st) t' = balance_up st ?n" using f bm c by (simp add: Let_def)
        show ?thesis unfolding e using Cons.IH[OF u 1 2] .
      qed
    qed
  qed
qed

lemma height_unwind: "length st + height t \<le> height (unwind st t)"
proof (induction st arbitrary: t)
  case Nil then show ?case by simp
next
  case (Cons f st)
  have "height t + 1 \<le> height (node_of f t)" by (cases f) auto
  then show ?case using Cons.IH[of "node_of f t"] by simp
qed

lemma successor_descend_total:
  "r \<noteq> Null \<Longrightarrow> base + length path + height r \<le> AVSTOR_AVL_HEIGHT + 1 \<Longrightarrow>
   \<exists>succ path'. successor_descend r path base = Inr (succ, path')"
proof (induction r path base rule: successor_descend.induct)
  case (1 path base)
  then show ?case by simp
next
  case (2 b ofs nm r path base)
  then show ?case by simp
next
  case (3 ll lb lo ln lr b ofs nm r path base)
  have "base + length path < AVSTOR_AVL_HEIGHT" using 3(3) by simp
  moreover have "base + length (Frame (- 1) b ofs nm r # path) + height (AvNode ll lb lo ln lr)
      \<le> AVSTOR_AVL_HEIGHT + 1"
    using 3(3) by simp
  ultimately show ?case using 3(1) by simp
qed

lemma remove_node_total:
  assumes "avl_invariant (unwind st (AvNode l b ofs nm r))"
    and "height (unwind st (AvNode l b ofs nm r)) \<le> AVSTOR_AVL_HEIGHT"
  shows "\<exists>res. remove_node (AvNode l b ofs nm r) st = Inr res"
proof -
  have n: "avl_invariant (AvNode l b ofs nm r)" using assms(1) by (rule avl_unwind_sub)
  then have l: "avl_invariant l" and r: "avl_invariant r" by simp_all
  have hb: "length st + height (AvNode l b ofs nm r) \<le> AVSTOR_AVL_HEIGHT"
    using height_unwind[of st "AvNode l b ofs nm r"] assms(2) by linarith
  show ?thesis
  proof (cases "l = Null \<or> r = Null")
    case True
    let ?sub = "if l = Null \<and> r = Null then Null else if l \<noteq> Null then l else r"
    have 1: "remove_node (AvNode l b ofs nm r) st = balance_up st ?sub" using True by auto
    have 2: "avl_invariant ?sub" using l r by auto
    have 3: "height (AvNode l b ofs nm r) = height ?sub + 1" using True by auto
    show ?thesis unfolding 1 using balance_up_total[OF assms(1) 2 3] .
  next
    case False
    have ls: "length st < AVSTOR_AVL_HEIGHT" using hb by simp
    have "length st + 1 + length ([]::'a frame list) + height r \<le> AVSTOR_AVL_HEIGHT + 1"
      using hb by simp
    then obtain succ path where d: "successor_descend r [] (length st + 1) = Inr (succ, path)"
      using successor_descend_total[of r "length st + 1" "[]"] False by auto
    obtain sb so sn sr where succ: "succ = AvNode Null sb so sn sr" and up: "unwind path succ = r"
      using successor_descend_props[OF d] by auto
    have 1: "remove_node (AvNode l b ofs nm r) st = balance_up (path @ Frame 1 b so sn l # st) sr"
      using False d succ ls by auto
    have m: "avl_invariant (AvNode l b so sn r)" using n unfolding avl_invariant.simps .
    have "avl_invariant (unwind st (AvNode l b so sn r))"
      using avl_unwind_replace[OF assms(1) m] by simp
    then have 0: "avl_invariant (unwind (path @ Frame 1 b so sn l # st) succ)"
      using up by (simp add: unwind_append)
    have "avl_invariant succ" using 0 by (rule avl_unwind_sub)
    then have 2: "avl_invariant sr" and 3: "height succ = height sr + 1"
      unfolding succ by simp_all
    show ?thesis unfolding 1 using balance_up_total[OF 0 2 3] .
  qed
qed

lemma backtrace_descend_total:
  "length st + height t \<le> AVSTOR_AVL_HEIGHT \<Longrightarrow> \<exists>n st'. backtrace_descend c t st = Inr (n, st')"
proof (induction c t st rule: backtrace_descend.induct)
  case (1 cmp st)
  then show ?case by simp
next
  case (2 cmp l b ofs nm r st)
  have ls: "length st < AVSTOR_AVL_HEIGHT" using 2(3) by simp
  show ?case
  proof (cases "cmp nm = 0")
    case True
    then show ?thesis by simp
  next
    case False
    show ?thesis
    proof (cases "cmp nm < 0")
      case True
      have "length (Frame (cmp nm) b ofs nm r # st) + height l \<le> AVSTOR_AVL_HEIGHT"
        using 2(3) by simp
      then show ?thesis using 2(1)[OF refl False ls True] False ls True by (simp add: Let_def)
    next
      case nl: False
      have "length (Frame (cmp nm) b ofs nm l # st) + height r \<le> AVSTOR_AVL_HEIGHT"
        using 2(3) by simp
      then show ?thesis using 2(2)[OF refl False ls nl] False ls nl by (simp add: Let_def)
    qed
  qed
qed

lemma successor_descend_internal:
  "r \<noteq> Null \<Longrightarrow> successor_descend r path base = Inl e \<Longrightarrow> e = AVSTOR_INTERNAL"
  by (induction r path base rule: successor_descend.induct) (auto split: if_splits)

lemma remove_node_internal:
  assumes "avl_invariant (unwind st (AvNode l b ofs nm r))"
    and "remove_node (AvNode l b ofs nm r) st = Inl e"
  shows "e = AVSTOR_INTERNAL"
proof -
  have n: "avl_invariant (AvNode l b ofs nm r)" using assms(1) by (rule avl_unwind_sub)
  then have l: "avl_invariant l" and r: "avl_invariant r" by simp_all
  show ?thesis
  proof (cases "l = Null \<or> r = Null")
    case True
    let ?sub = "if l = Null \<and> r = Null then Null else if l \<noteq> Null then l else r"
    have 1: "remove_node (AvNode l b ofs nm r) st = balance_up st ?sub" using True by auto
    have 2: "avl_invariant ?sub" using l r by auto
    have 3: "height (AvNode l b ofs nm r) = height ?sub + 1" using True by auto
    show ?thesis using balance_up_total[OF assms(1) 2 3] assms(2) unfolding 1 by auto
  next
    case False
    show ?thesis
    proof (cases "length st < AVSTOR_AVL_HEIGHT")
      case ls: True
      show ?thesis
      proof (cases "successor_descend r [] (length st + 1)")
        case (Inl e')
        then have "e' = AVSTOR_INTERNAL" using successor_descend_internal False by blast
        then show ?thesis using assms(2) False ls Inl by auto
      next
        case (Inr sp)
        obtain succ path where sp: "sp = (succ, path)" by (cases sp)
        note d = Inr[unfolded sp]
        obtain sb so sn sr where succ: "succ = AvNode Null sb so sn sr" and up: "unwind path succ = r"
          using successor_descend_props[OF d] by auto
        have 1: "remove_node (AvNode l b ofs nm r) st = balance_up (path @ Frame 1 b so sn l # st) sr"
          using False d succ ls by auto
        have m: "avl_invariant (AvNode l b so sn r)" using n unfolding avl_invariant.simps .
        have "avl_invariant (unwind st (AvNode l b so sn r))"
          using avl_unwind_replace[OF assms(1) m] by simp
        then have 0: "avl_invariant (unwind (path @ Frame 1 b so sn l # st) succ)"
          using up by (simp add: unwind_append)
        have "avl_invariant succ" using 0 by (rule avl_unwind_sub)
        then have 2: "avl_invariant sr" and 3: "height succ = height sr + 1"
          unfolding succ by simp_all
        show ?thesis using balance_up_total[OF 0 2 3] assms(2) unfolding 1 by auto
      qed
    next
      case False
      then show ?thesis using assms(2) \<open>\<not> (l = Null \<or> r = Null)\<close> by auto
    qed
  qed
qed


text \<open>
  C2.  Inserting a node where find_node_with_backtrace ended (insert_node, then balance_down)
  and removing the node it found (remove_node, then balance_up), rotations included, produce
  a tree, and the tree keeps the AVL invariant: every stored balance factor is the height of
  the right subtree minus the height of the left one and is -1, 0 or 1, and the subtree
  heights differ by at most one.  No assertion of the rotations fails.  The search and the
  removal push entries on the back-trace stack: they return a result for every tree of
  height at most \<open>AVSTOR_AVL_HEIGHT\<close>, and the only error a removal can throw from a higher
  tree is the \<open>AVSTOR_INTERNAL\<close> of backtrace_push.
\<close>

theorem avl_invariant_preserved:
  assumes "avl_invariant t"
  shows "(find_node_with_backtrace key t = Inr (Null, st) \<longrightarrow>
            (\<exists>t'. insert_node ofs nm st = Inr t' \<and> avl_invariant t'))
       \<and> (find_node_with_backtrace key t = Inr (AvNode l b o' n' r, st) \<longrightarrow>
            (\<exists>t'. remove_node (AvNode l b o' n' r) st = Inr t' \<and> avl_invariant t')
            \<or> (AVSTOR_AVL_HEIGHT < height t
                \<and> remove_node (AvNode l b o' n' r) st = Inl AVSTOR_INTERNAL))
       \<and> (height t \<le> AVSTOR_AVL_HEIGHT \<longrightarrow>
            (\<exists>n st. find_node_with_backtrace key t = Inr (n, st)))"
proof (intro conjI impI)
  assume f: "find_node_with_backtrace key t = Inr (Null, st)"
  have "unwind st Null = t"
    using descend_unwind[OF f[unfolded find_node_with_backtrace_def]] by simp
  then have u: "avl_invariant (unwind st Null)" using assms by simp
  have a: "avl_invariant (AvNode Null 0 ofs nm Null)"
    "height (AvNode Null 0 ofs nm Null) = height (Null :: 'a avtree) + 1"
    "grown (AvNode Null 0 ofs nm Null)"
    by (simp_all add: grown_def)
  obtain t' where i: "balance_down st (AvNode Null 0 ofs nm Null) = Inr t'"
    using balance_down_total[OF u a] by blast
  have "avl_invariant t'" using balance_down_avl[OF u a i] .
  then show "\<exists>t'. insert_node ofs nm st = Inr t' \<and> avl_invariant t'" using i by simp
next
  assume f: "find_node_with_backtrace key t = Inr (AvNode l b o' n' r, st)"
  have ut: "unwind st (AvNode l b o' n' r) = t"
    using descend_unwind[OF f[unfolded find_node_with_backtrace_def]] by simp
  then have u: "avl_invariant (unwind st (AvNode l b o' n' r))" using assms by simp
  show "(\<exists>t'. remove_node (AvNode l b o' n' r) st = Inr t' \<and> avl_invariant t')
            \<or> (AVSTOR_AVL_HEIGHT < height t
                \<and> remove_node (AvNode l b o' n' r) st = Inl AVSTOR_INTERNAL)"
  proof (cases "remove_node (AvNode l b o' n' r) st")
    case (Inr t')
    then show ?thesis using remove_node_avl[OF u Inr] by simp
  next
    case (Inl e)
    have e: "e = AVSTOR_INTERNAL" using remove_node_internal[OF u Inl] .
    have "\<not> height t \<le> AVSTOR_AVL_HEIGHT"
      using remove_node_total[OF u] Inl ut by auto
    then show ?thesis using Inl e by simp
  qed
next
  assume "height t \<le> AVSTOR_AVL_HEIGHT"
  then show "\<exists>n st. find_node_with_backtrace key t = Inr (n, st)"
    using backtrace_descend_total[of "[]" t "comparer key (buf key)"]
    by (simp add: find_node_with_backtrace_def)
qed

text \<open>
  An insertion that ends in a left rotation, and the removal of a leaf that makes balance_up
  rotate its parent to the left.
\<close>

theorem avl_invariant_preserved_witness:
  "avl_invariant (AvNode Null 1 100 (10::nat) (AvNode Null 0 200 20 Null))
   \<and> find_node_with_backtrace \<lparr>buf = 30, len = 1, comparer = (\<lambda>a b. int a - int b)\<rparr>
         (AvNode Null 1 100 (10::nat) (AvNode Null 0 200 20 Null))
       = Inr (Null, [Frame 10 0 200 20 Null, Frame 20 1 100 10 Null])
   \<and> insert_node 300 (30::nat) [Frame 10 0 200 20 Null, Frame 20 1 100 10 Null]
       = Inr (AvNode (AvNode Null 0 100 10 Null) 0 200 20 (AvNode Null 0 300 30 Null))
   \<and> avl_invariant (AvNode (AvNode Null 0 100 10 Null) 0 200 (20::nat) (AvNode Null 0 300 30 Null))
   \<and> avl_invariant (AvNode (AvNode Null 0 100 (10::nat) Null) 1 200 20
                        (AvNode Null 1 300 30 (AvNode Null 0 400 40 Null)))
   \<and> find_node_with_backtrace \<lparr>buf = 10, len = 1, comparer = (\<lambda>a b. int a - int b)\<rparr>
         (AvNode (AvNode Null 0 100 (10::nat) Null) 1 200 20
            (AvNode Null 1 300 30 (AvNode Null 0 400 40 Null)))
       = Inr (AvNode Null 0 100 10 Null,
              [Frame (- 10) 1 200 20 (AvNode Null 1 300 30 (AvNode Null 0 400 40 Null))])
   \<and> remove_node (AvNode Null 0 100 (10::nat) Null)
         [Frame (- 10) 1 200 20 (AvNode Null 1 300 30 (AvNode Null 0 400 40 Null))]
       = Inr (AvNode (AvNode Null 0 200 20 Null) 0 300 30 (AvNode Null 0 400 40 Null))
   \<and> avl_invariant (AvNode (AvNode Null 0 200 (20::nat) Null) 0 300 30 (AvNode Null 0 400 40 Null))"
  using avl_invariant_preserved[of "AvNode Null 1 100 (10::nat) (AvNode Null 0 200 20 Null)"
      "\<lparr>buf = 30, len = 1, comparer = (\<lambda>a b. int a - int b)\<rparr>"
      "[Frame 10 0 200 20 Null, Frame 20 1 100 10 Null]" 300 30]
    avl_invariant_preserved[of "AvNode (AvNode Null 0 100 (10::nat) Null) 1 200 20
            (AvNode Null 1 300 30 (AvNode Null 0 400 40 Null))"
      "\<lparr>buf = 10, len = 1, comparer = (\<lambda>a b. int a - int b)\<rparr>"
      "[Frame (- 10) 1 200 20 (AvNode Null 1 300 30 (AvNode Null 0 400 40 Null))]" 0 0
      Null 0 100 10 Null]
  by (simp add: find_node_with_backtrace_def AVSTOR_AVL_HEIGHT_def)


section \<open>The in-order cursor returns the nodes in order\<close>

lemma seq_of_node:
  "seq_of d (AvNode l b ofs nm r) =
     seq_of d (prv d (AvNode l b ofs nm r)) @ (ofs, nm) # seq_of d (nxt d (AvNode l b ofs nm r))"
  by (simp add: seq_of_def prv_def nxt_def)

lemma seq_of_Null[simp]: "seq_of d Null = []"
  by (simp add: seq_of_def)

lemma inorder_next_spec:
  "length st + height t \<le> AVSTOR_AVL_HEIGHT \<Longrightarrow> stack_ok d st \<Longrightarrow>
   \<exists>st'. stack_ok d st' \<and> pending d st' = seq_of d t @ pending d st \<and>
     inorder_next d st t =
       (if st' = [] then (AVSTOR_NOTFOUND, [], None)
        else (AVSTOR_OK, st', Some (fst (hd (pending d st')))))"
proof (induction t arbitrary: st)
  case Null
  show ?case
  proof (cases st)
    case Nil
    then show ?thesis by (intro exI[of _ "[]"]) simp
  next
    case (Cons n rest)
    then obtain l b ofs nm r where n: "n = AvNode l b ofs nm r"
      using Null.prems(2) by (cases n) auto
    show ?thesis using Cons n Null.prems(2) by (intro exI[of _ st]) simp
  qed
next
  case (AvNode l b ofs nm r)
  let ?t = "AvNode l b ofs nm r"
  have len: "length st < AVSTOR_AVL_HEIGHT" using AvNode.prems(1) by simp
  have ok: "stack_ok d (?t # st)" using AvNode.prems by (auto simp: nxt_def)
  have h: "length (?t # st) + height (prv d ?t) \<le> AVSTOR_AVL_HEIGHT"
    using AvNode.prems(1) by (auto simp: prv_def)
  have step: "inorder_next d st ?t = inorder_next d (?t # st) (prv d ?t)"
    using len by (simp add: inorder_state_push_def prv_def)
  obtain st' where st': "stack_ok d st'"
      "pending d st' = seq_of d (prv d ?t) @ pending d (?t # st)"
      "inorder_next d (?t # st) (prv d ?t) =
        (if st' = [] then (AVSTOR_NOTFOUND, [], None)
         else (AVSTOR_OK, st', Some (fst (hd (pending d st')))))"
  proof (cases d)
    case True
    then have p: "prv d ?t = r" by (simp add: prv_def)
    show ?thesis using AvNode.IH(2)[OF h[unfolded p] ok] that unfolding p by blast
  next
    case False
    then have p: "prv d ?t = l" by (simp add: prv_def)
    show ?thesis using AvNode.IH(1)[OF h[unfolded p] ok] that unfolding p by blast
  qed
  have "pending d st' = seq_of d ?t @ pending d st"
    using st'(2) by (subst seq_of_node) simp
  then show ?case using st'(1,3) step by (intro exI[of _ st']) simp
qed

lemma pending_Nil_iff: "stack_ok d st \<Longrightarrow> pending d st = [] \<longleftrightarrow> st = []"
  by (cases st; cases "hd st") auto

lemma avstor_inorder_next_spec:
  assumes "stack_ok d (ref st)" "d = is_descending_flag (flags st)" "pending d (ref st) = x # xs"
  shows "\<exists>st'. stack_ok d st' \<and> pending d st' = xs \<and>
     avstor_inorder_next st =
       (if xs = [] then (AVSTOR_NOTFOUND, st\<lparr>ref := []\<rparr>, None)
        else (AVSTOR_OK, st\<lparr>ref := st'\<rparr>, Some (fst (hd xs))))"
proof -
  obtain n rest where r: "ref st = n # rest" using assms(3) by (cases "ref st") auto
  obtain l b ofs nm rr where n: "n = AvNode l b ofs nm rr"
    using assms(1) r by (cases n) auto
  have xs: "xs = seq_of d (nxt d n) @ pending d rest" using assms(3) r n by simp
  have 1: "length rest + height (nxt d n) \<le> AVSTOR_AVL_HEIGHT" and 2: "stack_ok d rest"
    using assms(1) r by auto
  obtain st' where st': "stack_ok d st'" "pending d st' = xs"
      "inorder_next d rest (nxt d n) =
        (if st' = [] then (AVSTOR_NOTFOUND, [], None)
         else (AVSTOR_OK, st', Some (fst (hd (pending d st')))))"
    using inorder_next_spec[OF 1 2] xs by auto
  have e: "(st' = []) = (xs = [])" using pending_Nil_iff[OF st'(1)] st'(2) by auto
  have "avstor_inorder_next st =
      (case inorder_next d rest (nxt d n) of (res, s', out) \<Rightarrow> (res, st\<lparr>ref := s'\<rparr>, out))"
    using r assms(2) by (simp add: avstor_inorder_next_def nxt_def)
  then show ?thesis using st' e by (intro exI[of _ st']) auto
qed

lemma inorder_rest_spec:
  "stack_ok d (ref st) \<Longrightarrow> d = is_descending_flag (flags st) \<Longrightarrow> pending d (ref st) = x # xs \<Longrightarrow>
   length xs < n \<Longrightarrow> inorder_rest n st = Some (map fst xs, AVSTOR_NOTFOUND)"
proof (induction n arbitrary: st x xs)
  case 0
  then show ?case by simp
next
  case (Suc n)
  obtain st' where st': "stack_ok d st'" "pending d st' = xs"
      "avstor_inorder_next st =
       (if xs = [] then (AVSTOR_NOTFOUND, st\<lparr>ref := []\<rparr>, None)
        else (AVSTOR_OK, st\<lparr>ref := st'\<rparr>, Some (fst (hd xs))))"
    using avstor_inorder_next_spec[OF Suc.prems(1,2,3)] by auto
  show ?case
  proof (cases xs)
    case Nil
    then show ?thesis using st'(3) by simp
  next
    case (Cons y ys)
    have "inorder_rest n (st\<lparr>ref := st'\<rparr>) = Some (map fst ys, AVSTOR_NOTFOUND)"
      using Suc.IH[of "st\<lparr>ref := st'\<rparr>" y ys] st'(1,2) Suc.prems(2,4) Cons by simp
    then show ?thesis using st'(3) Cons by simp
  qed
qed

lemma inorder_all_no_key:
  assumes "height t \<le> AVSTOR_AVL_HEIGHT" "length (inorder t) \<le> n"
  shows "first_then_rest n (inorder_first_in None fl t)
     = Some (map fst (seq_of (is_descending_flag fl) t), AVSTOR_NOTFOUND)"
proof -
  let ?d = "is_descending_flag fl"
  obtain st' where st': "stack_ok ?d st'" "pending ?d st' = seq_of ?d t"
      "inorder_next ?d [] t =
        (if st' = [] then (AVSTOR_NOTFOUND, [], None)
         else (AVSTOR_OK, st', Some (fst (hd (pending ?d st')))))"
    using inorder_next_spec[of "[]" t ?d] assms(1) by auto
  show ?thesis
  proof (cases "seq_of ?d t")
    case Nil
    then have "st' = []" using pending_Nil_iff[OF st'(1)] st'(2) by simp
    then show ?thesis using st'(3) Nil by (simp add: first_then_rest_def inorder_first_in_def)
  next
    case (Cons x xs)
    then have ne: "st' \<noteq> []" using st'(2) by auto
    have "length (seq_of ?d t) = length (inorder t)" by (simp add: seq_of_def)
    then have l: "length xs < n" using Cons assms(2) by simp
    have "inorder_rest n \<lparr>ref = st', flags = fl\<rparr> = Some (map fst xs, AVSTOR_NOTFOUND)"
      by (rule inorder_rest_spec[where d = ?d and x = x]) (use st' Cons l in simp_all)
    then show ?thesis using st'(2,3) ne Cons by (simp add: first_then_rest_def inorder_first_in_def)
  qed
qed

lemma bst_by_node:
  "bst_by kf (AvNode l b ofs nm r) \<longleftrightarrow>
     bst_by kf l \<and> bst_by kf r \<and> (\<forall>x \<in> set (inorder l). kf (snd x) < kf nm)
     \<and> (\<forall>x \<in> set (inorder r). kf nm < kf (snd x))"
  unfolding bst_by_def by (auto simp: sorted_wrt_append) (metis order.strict_trans snd_conv)

lemma filter_all: "(\<forall>x \<in> set xs. P x) \<Longrightarrow> filter P xs = xs"
  by (induction xs) auto

lemma filter_none: "(\<forall>x \<in> set xs. \<not> P x) \<Longrightarrow> filter P xs = []"
  by (induction xs) auto

lemma seek_keeps_pair:
  "seek_keeps d kf k (ofs, nm) = (if d then kf nm \<le> k else k \<le> kf nm)"
  by (simp add: seek_keeps_def)

lemma find_node_for_inorder_spec:
  "bst_by kf t \<Longrightarrow> cmp_agrees c kf k \<Longrightarrow> length st + height t \<le> AVSTOR_AVL_HEIGHT \<Longrightarrow>
   stack_ok d st \<Longrightarrow>
   \<exists>node st'. find_node_for_inorder d c t st = Inr (node, st') \<and> stack_ok d st'
     \<and> pending d st' = filter (seek_keeps d kf k) (seq_of d t) @ pending d st
     \<and> (node \<noteq> Null \<longrightarrow> st' \<noteq> [] \<and> node = hd st')"
proof (induction t arbitrary: st)
  case Null
  then show ?case by simp
next
  case (AvNode l b ofs nm r)
  let ?t = "AvNode l b ofs nm r"
  have bl: "bst_by kf l" and br: "bst_by kf r"
    and ll: "\<forall>x \<in> set (inorder l). kf (snd x) < kf nm"
    and rr: "\<forall>x \<in> set (inorder r). kf nm < kf (snd x)"
    using AvNode.prems(1) unfolding bst_by_node by auto
  have c1: "c nm < 0 \<longleftrightarrow> k < kf nm" and c2: "c nm = 0 \<longleftrightarrow> k = kf nm"
    using AvNode.prems(2) by (auto simp: cmp_agrees_def)
  have len: "length st < AVSTOR_AVL_HEIGHT" using AvNode.prems(3) by simp
  have ok: "stack_ok d (?t # st)" using AvNode.prems(3,4) by (auto simp: nxt_def)
  note kp = seek_keeps_pair
  have hl: "length (?t # st) + height l \<le> AVSTOR_AVL_HEIGHT" "length st + height l \<le> AVSTOR_AVL_HEIGHT"
    and hr: "length (?t # st) + height r \<le> AVSTOR_AVL_HEIGHT" "length st + height r \<le> AVSTOR_AVL_HEIGHT"
    using AvNode.prems(3) by auto
  show ?case
  proof (cases d)
    case False
    note d = False
    consider "k < kf nm" | "k = kf nm" | "kf nm < k" by (meson linorder_less_linear)
    then show ?thesis
    proof cases
      case 1
      then have c: "c nm < 0" "c nm \<noteq> 0" using c1 by auto
      have f: "find_node_for_inorder d c ?t st = find_node_for_inorder d c l (?t # st)"
        using c d len by (simp add: inorder_state_push_def Let_def)
      have fr: "filter (seek_keeps d kf k) (inorder r) = inorder r"
        using rr 1 d by (intro filter_all) (auto simp: seek_keeps_def)
      obtain node st' where r: "find_node_for_inorder d c l (?t # st) = Inr (node, st')"
          "stack_ok d st'"
          "pending d st' = filter (seek_keeps d kf k) (seq_of d l) @ pending d (?t # st)"
          "node \<noteq> Null \<longrightarrow> st' \<noteq> [] \<and> node = hd st'"
        using AvNode.IH(1)[OF bl AvNode.prems(2) hl(1) ok] by blast
      show ?thesis unfolding f using r fr 1 d
        by (intro exI[of _ node] exI[of _ st']) (simp add: seq_of_def nxt_def kp)
    next
      case 2
      then have c: "c nm = 0" using c2 by auto
      have f: "find_node_for_inorder d c ?t st = Inr (?t, ?t # st)"
        using c d len by (simp add: inorder_state_push_def Let_def)
      have fr: "filter (seek_keeps d kf k) (inorder r) = inorder r"
        using rr 2 d by (intro filter_all) (auto simp: seek_keeps_def)
      have fl: "filter (seek_keeps d kf k) (inorder l) = []"
        using ll 2 d by (intro filter_none) (auto simp: seek_keeps_def)
      show ?thesis unfolding f using ok fr fl 2 d
        by (intro exI[of _ ?t] exI[of _ "?t # st"]) (simp add: seq_of_def nxt_def kp)
    next
      case 3
      then have c: "\<not> c nm < 0" "c nm \<noteq> 0" "\<not> c nm \<le> 0" using c1 c2 by auto
      have f: "find_node_for_inorder d c ?t st = find_node_for_inorder d c r st"
        using c d by (simp add: Let_def)
      have fl: "filter (seek_keeps d kf k) (inorder l) = []"
        using ll 3 d by (intro filter_none) (auto simp: seek_keeps_def)
      obtain node st' where r: "find_node_for_inorder d c r st = Inr (node, st')"
          "stack_ok d st'"
          "pending d st' = filter (seek_keeps d kf k) (seq_of d r) @ pending d st"
          "node \<noteq> Null \<longrightarrow> st' \<noteq> [] \<and> node = hd st'"
        using AvNode.IH(2)[OF br AvNode.prems(2) hr(2) AvNode.prems(4)] by blast
      show ?thesis unfolding f using r fl 3 d
        by (intro exI[of _ node] exI[of _ st']) (simp add: seq_of_def kp)
    qed
  next
    case True
    note d = True
    consider "k < kf nm" | "k = kf nm" | "kf nm < k" by (meson linorder_less_linear)
    then show ?thesis
    proof cases
      case 1
      then have c: "c nm < 0" "c nm \<noteq> 0" "\<not> - c nm \<le> 0" using c1 by auto
      have f: "find_node_for_inorder d c ?t st = find_node_for_inorder d c l st"
        using c d by (simp add: Let_def)
      have fr: "filter (seek_keeps d kf k) (inorder r) = []"
        using rr 1 d by (intro filter_none) (auto simp: seek_keeps_def)
      obtain node st' where r: "find_node_for_inorder d c l st = Inr (node, st')"
          "stack_ok d st'"
          "pending d st' = filter (seek_keeps d kf k) (seq_of d l) @ pending d st"
          "node \<noteq> Null \<longrightarrow> st' \<noteq> [] \<and> node = hd st'"
        using AvNode.IH(1)[OF bl AvNode.prems(2) hl(2) AvNode.prems(4)] by blast
      show ?thesis unfolding f using r fr 1 d
        by (intro exI[of _ node] exI[of _ st']) (simp add: seq_of_def kp rev_filter[symmetric])
    next
      case 2
      then have c: "c nm = 0" using c2 by auto
      have f: "find_node_for_inorder d c ?t st = Inr (?t, ?t # st)"
        using c d len by (simp add: inorder_state_push_def Let_def)
      have fr: "filter (seek_keeps d kf k) (inorder r) = []"
        using rr 2 d by (intro filter_none) (auto simp: seek_keeps_def)
      have fl: "filter (seek_keeps d kf k) (inorder l) = inorder l"
        using ll 2 d by (intro filter_all) (auto simp: seek_keeps_def)
      show ?thesis unfolding f using ok fr fl 2 d
        by (intro exI[of _ ?t] exI[of _ "?t # st"]) (simp add: seq_of_def nxt_def kp rev_filter[symmetric])
    next
      case 3
      then have c: "\<not> c nm < 0" "c nm \<noteq> 0" "- c nm \<le> 0" using c1 c2 by auto
      have f: "find_node_for_inorder d c ?t st = find_node_for_inorder d c r (?t # st)"
        using c d len by (simp add: inorder_state_push_def Let_def)
      have fl: "filter (seek_keeps d kf k) (inorder l) = inorder l"
        using ll 3 d by (intro filter_all) (auto simp: seek_keeps_def)
      obtain node st' where r: "find_node_for_inorder d c r (?t # st) = Inr (node, st')"
          "stack_ok d st'"
          "pending d st' = filter (seek_keeps d kf k) (seq_of d r) @ pending d (?t # st)"
          "node \<noteq> Null \<longrightarrow> st' \<noteq> [] \<and> node = hd st'"
        using AvNode.IH(2)[OF br AvNode.prems(2) hr(1) ok] by blast
      show ?thesis unfolding f using r fl 3 d
        by (intro exI[of _ node] exI[of _ st']) (simp add: seq_of_def nxt_def kp rev_filter[symmetric])
    qed
  qed
qed

lemma pending_hd: "stack_ok d st \<Longrightarrow> st \<noteq> [] \<Longrightarrow> fst (hd (pending d st)) = node_ofs (hd st)"
  by (cases st; cases "hd st") auto

lemma inorder_all_key:
  assumes "bst_by kf t" "cmp_agrees (comparer key (buf key)) kf k"
    "height t \<le> AVSTOR_AVL_HEIGHT" "length (inorder t) \<le> n"
  shows "first_then_rest n (inorder_first_in (Some key) fl t)
     = Some (map fst (filter (seek_keeps (is_descending_flag fl) kf k)
                (seq_of (is_descending_flag fl) t)), AVSTOR_NOTFOUND)"
proof -
  let ?d = "is_descending_flag fl"
  let ?xs = "filter (seek_keeps ?d kf k) (seq_of ?d t)"
  obtain node st' where r: "find_node_for_inorder ?d (comparer key (buf key)) t [] = Inr (node, st')"
      "stack_ok ?d st'" "pending ?d st' = ?xs" "node \<noteq> Null \<longrightarrow> st' \<noteq> [] \<and> node = hd st'"
    using find_node_for_inorder_spec[OF assms(1,2), of "[]" ?d] assms(3) by auto
  show ?thesis
  proof (cases ?xs)
    case Nil
    then have e: "st' = []" using pending_Nil_iff[OF r(2)] r(3) by simp
    then have "node = Null" using r(4) by auto
    then show ?thesis using r(1) e Nil by (simp add: first_then_rest_def inorder_first_in_def)
  next
    case (Cons x xs)
    then have ne: "st' \<noteq> []" using r(3) by auto
    then obtain tp rest where st': "st' = tp # rest" by (cases st') auto
    have o: "node_ofs (hd st') = fst x" using pending_hd[OF r(2) ne] r(3) Cons by simp
    have "length ?xs \<le> length (seq_of ?d t)" by (rule length_filter_le)
    also have "\<dots> = length (inorder t)" by (simp add: seq_of_def)
    finally have l: "length xs < n" using Cons assms(4) by simp
    have rest: "inorder_rest n \<lparr>ref = st', flags = fl\<rparr> = Some (map fst xs, AVSTOR_NOTFOUND)"
      by (rule inorder_rest_spec[where d = ?d and x = x]) (use r Cons l in simp_all)
    have first: "inorder_first_in (Some key) fl t = (AVSTOR_OK, \<lparr>ref = st', flags = fl\<rparr>, Some (fst x))"
    proof (cases node)
      case Null
      then show ?thesis using r(1) st' o by (simp add: inorder_first_in_def)
    next
      case (AvNode l b ofs nm rr)
      then have "hd st' = AvNode l b ofs nm rr" using r(4) by auto
      then have "fst x = ofs" using o by simp
      then show ?thesis using r(1) AvNode by (simp add: inorder_first_in_def)
    qed
    show ?thesis using first rest Cons by (simp add: first_then_rest_def)
  qed
qed


section \<open>Deletion keeps the order of a tree and removes the node\<close>

lemma inorder_unwind: "inorder (unwind st t) = before_of st @ inorder t @ after_of st"
  by (induction st arbitrary: t rule: before_of.induct) auto



lemma inorder_set_bf[simp]: "inorder (set_bf t v) = inorder t"
  by (cases t) auto

lemma rotate_left_inorder:
  "rotate_left (AvNode a xb xo xn z) z = Inr z' \<Longrightarrow> inorder z' = inorder (AvNode a xb xo xn z)"
  by (cases z) (auto split: if_splits)

lemma rotate_right_inorder:
  "rotate_right (AvNode z xb xo xn c) z = Inr z' \<Longrightarrow> inorder z' = inorder (AvNode z xb xo xn c)"
  by (cases z) (auto split: if_splits)

lemma rotate_right_left_inorder:
  assumes "rotate_right_left (AvNode a xb xo xn z) z = Inr z'"
  shows "inorder z' = inorder (AvNode a xb xo xn z)"
proof (cases z)
  case Null
  then show ?thesis using assms by simp
next
  case (AvNode y zb zo zn c)
  then show ?thesis using assms by (cases y) (auto split: if_splits)
qed

lemma rotate_left_right_inorder:
  assumes "rotate_left_right (AvNode z xb xo xn c) z = Inr z'"
  shows "inorder z' = inorder (AvNode z xb xo xn c)"
proof (cases z)
  case Null
  then show ?thesis using assms by simp
next
  case (AvNode a zb zo zn y)
  then show ?thesis using assms by (cases y) (auto split: if_splits)
qed

lemma node_of_right: "\<not> c < 0 \<Longrightarrow> node_of (Frame c b ofs nm s) t = AvNode s b ofs nm t"
  by simp

lemma node_of_left: "c < 0 \<Longrightarrow> node_of (Frame c b ofs nm s) t = AvNode t b ofs nm s"
  by simp




lemma descend_find_key:
  "backtrace_descend c t st = Inr (node, st') \<Longrightarrow> find_key c t = node"
  by (induction c t st rule: backtrace_descend.induct) (auto simp: Let_def split: if_splits)


lemma find_key_Null_iff:
  "bst_by kf t \<Longrightarrow> cmp_agrees c kf k \<Longrightarrow>
   (find_key c t = Null) = (k \<notin> (\<lambda>x. kf (snd x)) ` set (inorder t))"
proof (induction t)
  case Null
  then show ?case by simp
next
  case (AvNode l b ofs nm r)
  have bl: "bst_by kf l" and br: "bst_by kf r"
    and ll: "\<forall>x \<in> set (inorder l). kf (snd x) < kf nm"
    and rr: "\<forall>x \<in> set (inorder r). kf nm < kf (snd x)"
    using AvNode.prems(1) unfolding bst_by_node by auto
  have c1: "c nm < 0 \<longleftrightarrow> k < kf nm" and c2: "c nm = 0 \<longleftrightarrow> k = kf nm"
    using AvNode.prems(2) by (auto simp: cmp_agrees_def)
  consider "k < kf nm" | "k = kf nm" | "kf nm < k" by (meson linorder_less_linear)
  then show ?case
  proof cases
    case 1
    then have "find_key c (AvNode l b ofs nm r) = find_key c l" using c1 c2 by (simp add: Let_def)
    moreover have "k \<notin> (\<lambda>x. kf (snd x)) ` set (inorder r)" using rr 1 by force
    ultimately show ?thesis using AvNode.IH(1)[OF bl AvNode.prems(2)] 1 by auto
  next
    case 2
    then show ?thesis using c2 by (simp add: Let_def)
  next
    case 3
    then have "\<not> k < kf nm" "k \<noteq> kf nm" by auto
    then have "find_key c (AvNode l b ofs nm r) = find_key c r" using c1 c2 by (simp add: Let_def)
    moreover have "k \<notin> (\<lambda>x. kf (snd x)) ` set (inorder l)" using ll 3 by force
    ultimately show ?thesis using AvNode.IH(2)[OF br AvNode.prems(2)] 3 by auto
  qed
qed



lemma bytes_offset_roundtrip: "x < 2 ^ 32 \<Longrightarrow> bytes_offset (offset_bytes x) = x"
proof -
  assume x: "x < 2 ^ 32"
  have u: "\<And>y. unat (of_nat y :: 8 word) = y mod 256" by (simp add: unat_of_nat)
  have "x div 16777216 < 256" using x by simp
  then have m: "x div 16777216 mod 256 = x div 16777216" by simp
  have "x = x mod 256 + 256 * (x div 256 mod 256) + 65536 * (x div 65536 mod 256)
        + 16777216 * (x div 16777216)"
  proof -
    have a: "x = x mod 256 + 256 * (x div 256)" by simp
    have b: "x div 256 = x div 256 mod 256 + 256 * (x div 65536)"
      using div_mult2_eq[of x 256 256] by simp
    have c: "x div 65536 = x div 65536 mod 256 + 256 * (x div 16777216)"
      using div_mult2_eq[of x 65536 256] by simp
    show ?thesis using a b c by linarith
  qed
  then show ?thesis using m by (simp add: offset_bytes_def u)
qed

lemma offset_key_agrees:
  "x < 2 ^ 32 \<Longrightarrow> cmp_agrees (key_cmp (offset_key x)) bytes_offset x"
  by (simp add: cmp_agrees_def key_cmp_def offset_key_def offset_comparer_def Let_def
      bytes_offset_roundtrip)


section \<open>The operations on the store\<close>

lemma find_key_in:
  "find_key c t = AvNode l b ofs nm r \<Longrightarrow> (ofs, nm) \<in> set (inorder t)"
  by (induction t) (auto simp: Let_def split: if_splits)

lemma find_bt_eq:
  "find_node_with_backtrace key t = backtrace_descend (key_cmp key) t []"
  by (simp add: find_node_with_backtrace_def key_cmp_def)





lemma get_root_value_none: "nodes db p = None \<Longrightarrow> get_root db (ValueRoot p) = Null"
  by simp

lemma backtrace_descend_not_ok: "backtrace_descend c t st \<noteq> Inl AVSTOR_OK"
  by (induction t arbitrary: st) (auto simp: Let_def)

lemma rotate_right_err: "rotate_right x z = Inl e \<Longrightarrow> e = PANIC"
  by (induction x z rule: rotate_right.induct) auto

lemma rotate_left_err: "rotate_left x z = Inl e \<Longrightarrow> e = PANIC"
  by (induction x z rule: rotate_left.induct) auto

lemma rotate_right_left_err: "rotate_right_left x z = Inl e \<Longrightarrow> e = PANIC"
  by (induction x z rule: rotate_right_left.induct) auto

lemma rotate_left_right_err: "rotate_left_right x z = Inl e \<Longrightarrow> e = PANIC"
  by (induction x z rule: rotate_left_right.induct) auto

lemma balance_up_not_ok: "balance_up st sub \<noteq> Inl AVSTOR_OK"
proof (induction st arbitrary: sub)
  case Nil
  then show ?case by simp
next
  case (Cons f st)
  show ?case
    by (auto simp: Let_def Cons.IH split: if_splits sum.splits
        dest: rotate_right_err rotate_left_err rotate_right_left_err rotate_left_right_err)
qed

lemma successor_descend_err: "successor_descend t path base = Inl e \<Longrightarrow> e \<noteq> AVSTOR_OK"
  by (induction t path base rule: successor_descend.induct) (auto split: if_splits)

lemma remove_node_not_ok: "remove_node node st \<noteq> Inl AVSTOR_OK"
  by (cases node) (auto simp: balance_up_not_ok split: sum.splits avtree.splits if_splits dest: successor_descend_err)

lemma delete_node_not_ok: "delete_node db rr node st \<noteq> Inl AVSTOR_OK"
  using remove_node_not_ok[of node st] by (auto simp: delete_node_def split: sum.splits)

lemma delete_backlink_not_ok: "delete_backlink db link target \<noteq> Inl AVSTOR_OK"
  using backtrace_descend_not_ok delete_node_not_ok
  by (auto simp: delete_backlink_def find_bt_eq simp del: get_root.simps
      split: sum.splits avtree.splits if_splits)

lemma select_root_not_ok: "select_root db parent fl \<noteq> Inl AVSTOR_OK"
  by (auto simp: select_root_def lock_keyref_def lock_noderef_def split: sum.splits option.splits if_splits)

lemma delete_try_not_ok: "delete_try db parent fl key \<noteq> Inl AVSTOR_OK"
  using backtrace_descend_not_ok delete_node_not_ok delete_backlink_not_ok select_root_not_ok
  by (auto simp: delete_try_def find_bt_eq simp del: get_root.simps
      split: sum.splits avtree.splits if_splits option.splits avdata.splits)



text \<open>
  \<open>AVSTOR_PARAM\<close> is thrown below the public operations only by lock_noderef, on a handle
  whose \<open>ref\<close> is 0: find_node_with_backtrace throws \<open>AVSTOR_INTERNAL\<close>, the rotations fail
  by an assertion, find_node_for_inorder throws \<open>AVSTOR_CORRUPT\<close>.
\<close>

lemma backtrace_descend_param: "backtrace_descend c t st \<noteq> Inl AVSTOR_PARAM"
  by (induction t arbitrary: st) (auto simp: Let_def)

lemma find_node_with_backtrace_param: "find_node_with_backtrace key t \<noteq> Inl AVSTOR_PARAM"
  by (simp add: find_node_with_backtrace_def backtrace_descend_param)

lemma balance_down_param: "balance_down st sub \<noteq> Inl AVSTOR_PARAM"
proof (induction st arbitrary: sub)
  case Nil
  then show ?case by simp
next
  case (Cons f st)
  show ?case
    by (auto simp: Let_def Cons.IH split: if_splits sum.splits
        dest: rotate_right_err rotate_left_err rotate_right_left_err rotate_left_right_err)
qed

lemma balance_up_param: "balance_up st sub \<noteq> Inl AVSTOR_PARAM"
proof (induction st arbitrary: sub)
  case Nil
  then show ?case by simp
next
  case (Cons f st)
  show ?case
    by (auto simp: Let_def Cons.IH split: if_splits sum.splits
        dest: rotate_right_err rotate_left_err rotate_right_left_err rotate_left_right_err)
qed

lemma successor_descend_param: "successor_descend t path base \<noteq> Inl AVSTOR_PARAM"
  by (induction t path base rule: successor_descend.induct) (auto split: if_splits)

lemma remove_node_param: "remove_node node st \<noteq> Inl AVSTOR_PARAM"
  by (cases node)
     (auto simp: balance_up_param successor_descend_param split: sum.splits avtree.splits if_splits)

lemma delete_node_param: "delete_node db rr node st \<noteq> Inl AVSTOR_PARAM"
  using remove_node_param[of node st] by (auto simp: delete_node_def split: sum.splits)

lemma delete_backlink_param: "delete_backlink db link target \<noteq> Inl AVSTOR_PARAM"
  by (auto simp: delete_backlink_def find_node_with_backtrace_param delete_node_param
      simp del: get_root.simps split: sum.splits avtree.splits if_splits)

lemma create_and_insert_param:
  "create_and_insert db alloc rr key st ty d = Inl AVSTOR_PARAM \<longleftrightarrow> alloc = Inl AVSTOR_PARAM"
  using balance_down_param[of st "AvNode Null 0 _ (key_name key) Null"]
  by (auto simp: create_and_insert_def simp del: set_root.simps split: sum.splits)

lemma create_backlink_param:
  "alloc_key \<noteq> Inl AVSTOR_PARAM \<Longrightarrow> alloc_value \<noteq> Inl AVSTOR_PARAM \<Longrightarrow>
   create_backlink db alloc_key alloc_value link target \<noteq> Inl AVSTOR_PARAM"
  by (auto simp: create_backlink_def find_node_with_backtrace_param create_and_insert_param
      simp del: get_root.simps set_root.simps
      split: sum.splits avtree.splits if_splits prod.splits)

lemma lock_keyref_param: "lock_keyref db p = Inl AVSTOR_PARAM \<longleftrightarrow> p = 0"
  by (auto simp: lock_keyref_def lock_noderef_def split: option.splits)

lemma select_root_param: "select_root db parent fl \<noteq> Inl AVSTOR_PARAM"
  by (auto simp: select_root_def lock_keyref_param split: sum.splits)

lemma delete_try_param: "delete_try db parent fl key \<noteq> Inl AVSTOR_PARAM"
  by (auto simp: delete_try_def select_root_param find_node_with_backtrace_param
        delete_node_param delete_backlink_param
      simp del: get_root.simps
      split: sum.splits avtree.splits if_splits option.splits avdata.splits prod.splits)

lemma delete_try_res_param: "delete_try db parent fl key \<noteq> Inr (AVSTOR_PARAM, b)"
  by (auto simp: delete_try_def simp del: get_root.simps
      split: sum.splits avtree.splits if_splits option.splits avdata.splits prod.splits)

lemma find_node_for_inorder_param: "find_node_for_inorder d c t st \<noteq> Inl AVSTOR_PARAM"
  by (induction d c t st rule: find_node_for_inorder.induct)
     (auto simp: Let_def split: if_splits option.splits)

lemma inorder_next_param: "fst (inorder_next d st t) \<noteq> AVSTOR_PARAM"
  by (induction d st t rule: inorder_next.induct) (auto split: option.splits)

lemma inorder_first_in_param: "fst (inorder_first_in key fl t) \<noteq> AVSTOR_PARAM"
  using inorder_next_param[of "is_descending_flag fl" "[]" t]
  by (auto simp: inorder_first_in_def find_node_for_inorder_param
      split: option.splits sum.splits avtree.splits list.splits prod.splits)

lemma create_key_try_param:
  "alloc \<noteq> Inl AVSTOR_PARAM \<Longrightarrow> fst (create_key_try db alloc parent key out) \<noteq> Inl AVSTOR_PARAM"
  by (auto simp: create_key_try_def lock_keyref_param find_node_with_backtrace_param
        create_and_insert_param
      simp del: get_root.simps
      split: sum.splits avtree.splits if_splits prod.splits)

lemma lock_keyref_Inr: "lock_keyref db p = Inr n \<Longrightarrow> p \<noteq> 0"
  using lock_keyref_param[of db p] by auto

lemma lock_keyref_Inl: "lock_keyref db p = Inl e \<Longrightarrow> (e = AVSTOR_PARAM) = (p = 0)"
  using lock_keyref_param[of db p] by auto

lemma create_value_try_param:
  assumes "alloc \<noteq> Inl AVSTOR_PARAM"
  shows "fst (create_value_try db alloc parent key ty d out) = Inl AVSTOR_PARAM \<longleftrightarrow> parent = 0"
proof (cases "lock_keyref db parent")
  case (Inl e)
  then show ?thesis using lock_keyref_Inl[OF Inl] by (simp add: create_value_try_def)
next
  case (Inr pn)
  have "parent \<noteq> 0" using lock_keyref_Inr[OF Inr] .
  then show ?thesis using Inr assms
    by (auto simp: create_value_try_def find_node_with_backtrace_param create_and_insert_param
        simp del: get_root.simps split: sum.splits avtree.splits prod.splits)
qed

lemma create_value_param:
  "alloc \<noteq> Inl AVSTOR_PARAM \<Longrightarrow> \<not> is_invalid_avstor_key key \<Longrightarrow>
   fst (create_value db alloc parent key ty d out) = AVSTOR_PARAM \<longleftrightarrow> parent = 0"
  using create_value_try_param[of alloc db parent key ty d out]
  by (auto simp: create_value_def split: sum.splits prod.splits)

lemma create_link_try_param:
  assumes "alloc \<noteq> Inl AVSTOR_PARAM" "alloc_key \<noteq> Inl AVSTOR_PARAM"
    "alloc_value \<noteq> Inl AVSTOR_PARAM"
  shows "fst (create_link_try db alloc alloc_key alloc_value parent key target out) = Inl AVSTOR_PARAM
     \<longleftrightarrow> parent = 0"
proof (cases "lock_keyref db parent")
  case (Inl e)
  then show ?thesis using lock_keyref_Inl[OF Inl] by (simp add: create_link_try_def)
next
  case (Inr pn)
  have "parent \<noteq> 0" using lock_keyref_Inr[OF Inr] .
  then show ?thesis using Inr assms
    by (auto simp: create_link_try_def find_node_with_backtrace_param create_and_insert_param
          create_backlink_param
        simp del: get_root.simps split: sum.splits avtree.splits prod.splits)
qed


section \<open>The operations on the example stores\<close>

lemma key_name_offset_key: "key_name (offset_key x) = offset_bytes x @ [0, 0, 0]"
  by (simp add: key_name_def offset_key_def offset_bytes_def align_node_def SIZE_NODE_HDR_def
      numeral_3_eq_3)

lemma bytes_offset_key_name: "x < 2 ^ 32 \<Longrightarrow> bytes_offset (key_name (offset_key x)) = x"
  using bytes_offset_roundtrip[of x] by (simp add: key_name_offset_key offset_bytes_def)

lemma offset_cmp_eval:
  "x < 2 ^ 32 \<Longrightarrow> y < 2 ^ 32 \<Longrightarrow>
   key_cmp (offset_key x) (key_name (offset_key y))
     = (if x > y then 1 else if x < y then - 1 else 0)"
  using bytes_offset_roundtrip[of x] bytes_offset_key_name[of y]
  by (simp add: key_cmp_def offset_key_def offset_comparer_def Let_def)

lemma offset_key_valid: "\<not> is_invalid_avstor_key (offset_key x)"
  by (simp add: is_invalid_avstor_key_def offset_key_def MAX_KEY_LEN_def)

lemma link_store_sel [simp]:
  "root link_store = AvNode Null 1 4122 (key_name (offset_key 1)) (AvNode Null 0 4124 (key_name (offset_key 2)) Null)"
  "root_links link_store = AvNode Null 0 12314 (key_name (offset_key 4122)) Null"
  "nodes link_store = link_nodes"
  "c_root link_store = root link_store"
  "c_root_links link_store = root_links link_store"
  "c_nodes link_store = link_nodes"
  by (simp_all add: link_store_def)

lemma link_nodes_at:
  "link_nodes 4122 = Some \<lparr>ntype = AVSTOR_TYPE_KEY, ndata = VKey Null Null 1\<rparr>"
  "link_nodes 4124 = Some \<lparr>ntype = AVSTOR_TYPE_KEY,
                ndata = VKey Null (AvNode Null 0 8218 (key_name (offset_key 7)) Null) 1\<rparr>"
  "link_nodes 8218 = Some \<lparr>ntype = AVSTOR_TYPE_LINK, ndata = VLink 4122\<rparr>"
  "link_nodes 12314 = Some \<lparr>ntype = AVSTOR_TYPE_KEY,
                 ndata = VKey Null (AvNode Null 0 12316 (key_name (offset_key 8218)) Null) 0\<rparr>"
  "link_nodes 12316 = Some \<lparr>ntype = AVSTOR_TYPE_LINK, ndata = VLink 8218\<rparr>"
  by (simp_all add: link_nodes_def)

lemma link_store_committed: "rollback_store link_store = link_store"
  by (simp add: rollback_store_def link_store_def)

lemmas type_defs = AVSTOR_TYPE_KEY_def AVSTOR_TYPE_LINK_def AVSTOR_TYPE_STRING_def
  AVSTOR_TYPE_INT32_def

section \<open>Properties of the public operations\<close>

lemma link_store_find:
  "find_node_with_backtrace (offset_key 2) (get_root link_store HdrRoot)
      = Inr (AvNode Null 0 4124 (key_name (offset_key 2)) Null, [Frame 1 1 4122 (key_name (offset_key 1)) Null])"
  "find_node_with_backtrace (offset_key 1) (get_root link_store HdrRoot)
      = Inr (AvNode Null 1 4122 (key_name (offset_key 1)) (AvNode Null 0 4124 (key_name (offset_key 2)) Null), [])"
  "find_node_with_backtrace (offset_key 7) (get_root link_store (ValueRoot 4124))
      = Inr (AvNode Null 0 8218 (key_name (offset_key 7)) Null, [])"
  by (simp_all add: find_bt_eq offset_cmp_eval AVSTOR_AVL_HEIGHT_def link_nodes_at)

lemma link_store_select:
  "select_root link_store 0 0 = Inr HdrRoot"
  "select_root link_store 0 AVSTOR_DESCENDING = Inr HdrRoot"
  "select_root link_store 4124 AVSTOR_VALUES = Inr (ValueRoot 4124)"
  "lock_keyref link_store 4124 = Inr \<lparr>ntype = AVSTOR_TYPE_KEY,
                ndata = VKey Null (AvNode Null 0 8218 (key_name (offset_key 7)) Null) 1\<rparr>"
  by (simp_all add: select_root_def is_value_flag_def AVSTOR_VALUES_def AVSTOR_DESCENDING_def
      lock_keyref_def lock_noderef_def link_nodes_at)

text \<open>
  C6, as the code has it.  Every operation that takes an avstor_key returns \<open>AVSTOR_PARAM\<close>
  for a key longer than 240 bytes.  A key of at most 240 bytes, the key of length 0 included,
  is accepted: is_invalid_avstor_key tests \<open>key->len > MAX_KEY_LEN\<close> only, and the operation
  returns \<open>AVSTOR_PARAM\<close> only for what else it checks, which is a parent handle whose \<open>ref\<close>
  is 0 where a key node is required, the target handle of a link whose \<open>ref\<close> is 0, the length
  of the string and the size of the binary value.  alloc_node and create_page do not throw
  \<open>AVSTOR_PARAM\<close>.
\<close>

theorem over_length_key_rejected:
  "(len key > MAX_KEY_LEN \<longrightarrow>
       fst (avstor_create_key db alloc parent key out) = AVSTOR_PARAM
     \<and> fst (avstor_create_string db alloc parent key val out) = AVSTOR_PARAM
     \<and> fst (avstor_create_binary db alloc parent key val sz out) = AVSTOR_PARAM
     \<and> fst (avstor_create_int32 db alloc parent key ival out) = AVSTOR_PARAM
     \<and> fst (avstor_create_int64 db alloc parent key lval out) = AVSTOR_PARAM
     \<and> fst (avstor_create_double db alloc parent key lval out) = AVSTOR_PARAM
     \<and> fst (avstor_create_link db alloc alloc_key alloc_value parent key target out) = AVSTOR_PARAM
     \<and> fst (avstor_find db parent key fl out_ofs) = AVSTOR_PARAM
     \<and> fst (avstor_delete db parent fl key) = AVSTOR_PARAM
     \<and> fst (avstor_inorder_first st0 db parent (Some key) fl) = AVSTOR_PARAM)
   \<and> (len key \<le> MAX_KEY_LEN \<longrightarrow>
       \<not> is_invalid_avstor_key key
     \<and> fst (avstor_find db 0 key 0 out_ofs) \<noteq> AVSTOR_PARAM)
   \<and> (len key \<le> MAX_KEY_LEN \<and> alloc \<noteq> Inl AVSTOR_PARAM \<and> alloc_key \<noteq> Inl AVSTOR_PARAM
        \<and> alloc_value \<noteq> Inl AVSTOR_PARAM \<longrightarrow>
       fst (avstor_create_key db alloc parent key out) \<noteq> AVSTOR_PARAM
     \<and> (fst (avstor_create_string db alloc parent key val out) = AVSTOR_PARAM
          \<longleftrightarrow> parent = 0 \<or> strlen_l val (MAX_STRING_LEN + 1) = MAX_STRING_LEN)
     \<and> (fst (avstor_create_binary db alloc parent key val sz out) = AVSTOR_PARAM
          \<longleftrightarrow> parent = 0 \<or> sz > MAX_BINARY_LEN)
     \<and> (fst (avstor_create_int32 db alloc parent key ival out) = AVSTOR_PARAM \<longleftrightarrow> parent = 0)
     \<and> (fst (avstor_create_int64 db alloc parent key lval out) = AVSTOR_PARAM \<longleftrightarrow> parent = 0)
     \<and> (fst (avstor_create_double db alloc parent key lval out) = AVSTOR_PARAM \<longleftrightarrow> parent = 0)
     \<and> (fst (avstor_create_link db alloc alloc_key alloc_value parent key target out) = AVSTOR_PARAM
          \<longleftrightarrow> parent = 0 \<or> target = 0)
     \<and> (fst (avstor_find db parent key fl out_ofs) = AVSTOR_PARAM
          \<longleftrightarrow> is_value_flag fl \<and> parent = 0)
     \<and> (fst (avstor_delete db parent fl key) = AVSTOR_PARAM
          \<longleftrightarrow> is_value_flag fl \<and> parent = 0)
     \<and> (fst (avstor_inorder_first st0 db parent (Some key) fl) = AVSTOR_PARAM
          \<longleftrightarrow> is_value_flag fl \<and> parent = 0))"
proof (intro conjI impI)
  assume a: "len key \<le> MAX_KEY_LEN \<and> alloc \<noteq> Inl AVSTOR_PARAM \<and> alloc_key \<noteq> Inl AVSTOR_PARAM
        \<and> alloc_value \<noteq> Inl AVSTOR_PARAM"
  then have v: "\<not> is_invalid_avstor_key key" and al: "alloc \<noteq> Inl AVSTOR_PARAM"
    by (simp_all add: is_invalid_avstor_key_def)
  show "fst (avstor_create_key db alloc parent key out) \<noteq> AVSTOR_PARAM"
    using create_key_try_param[OF al, of db parent key out] v
    by (auto simp: avstor_create_key_def split: prod.splits sum.splits)
  show "fst (avstor_create_string db alloc parent key val out) = AVSTOR_PARAM
          \<longleftrightarrow> parent = 0 \<or> strlen_l val (MAX_STRING_LEN + 1) = MAX_STRING_LEN"
    using create_value_param[OF al v] by (simp add: avstor_create_string_def create_var_value_def)
  show "fst (avstor_create_binary db alloc parent key val sz out) = AVSTOR_PARAM
          \<longleftrightarrow> parent = 0 \<or> sz > MAX_BINARY_LEN"
    using create_value_param[OF al v] by (simp add: avstor_create_binary_def create_var_value_def)
  show "fst (avstor_create_int32 db alloc parent key ival out) = AVSTOR_PARAM \<longleftrightarrow> parent = 0"
    using create_value_param[OF al v] by (simp add: avstor_create_int32_def)
  show "fst (avstor_create_int64 db alloc parent key lval out) = AVSTOR_PARAM \<longleftrightarrow> parent = 0"
    using create_value_param[OF al v]
    by (simp add: avstor_create_int64_def create_fixed64_value_def)
  show "fst (avstor_create_double db alloc parent key lval out) = AVSTOR_PARAM \<longleftrightarrow> parent = 0"
    using create_value_param[OF al v]
    by (simp add: avstor_create_double_def create_fixed64_value_def)
  show "fst (avstor_create_link db alloc alloc_key alloc_value parent key target out) = AVSTOR_PARAM
          \<longleftrightarrow> parent = 0 \<or> target = 0"
    using create_link_try_param[of alloc alloc_key alloc_value db parent key target out] a v
    by (auto simp: avstor_create_link_def split: prod.splits sum.splits)
  show "fst (avstor_find db parent key fl out_ofs) = AVSTOR_PARAM
          \<longleftrightarrow> is_value_flag fl \<and> parent = 0"
    using select_root_param[of db parent fl] v
    by (auto simp: avstor_find_def simp del: get_root.simps split: sum.splits avtree.splits)
  show "fst (avstor_delete db parent fl key) = AVSTOR_PARAM
          \<longleftrightarrow> is_value_flag fl \<and> parent = 0"
    using delete_try_param[of db parent fl key] delete_try_res_param[of db parent fl key] v
    by (auto simp: avstor_delete_def split: sum.splits prod.splits)
  show "fst (avstor_inorder_first st0 db parent (Some key) fl) = AVSTOR_PARAM
          \<longleftrightarrow> is_value_flag fl \<and> parent = 0"
    using select_root_param[of db parent fl] v inorder_first_in_param
    by (auto simp: avstor_inorder_first_def simp del: get_root.simps split: sum.splits)
qed (auto simp: is_invalid_avstor_key_def avstor_create_key_def avstor_create_string_def
      avstor_create_binary_def create_var_value_def create_value_def avstor_create_int32_def
      avstor_create_int64_def avstor_create_double_def create_fixed64_value_def
      avstor_create_link_def avstor_find_def avstor_delete_def avstor_inorder_first_def
      select_root_def is_value_flag_def Let_def
      simp del: get_root.simps split: avtree.splits)

text \<open>
  A key of 241 bytes is rejected by avstor_create_key and avstor_find on the empty store.  A
  key of 240 bytes is accepted: avstor_create_key returns \<open>AVSTOR_OK\<close> and the node is the
  root of the tree, with the 243 bytes of name that create_node gives it.
\<close>

theorem over_length_key_rejected_witness:
  "fst (avstor_create_key empty_store (Inr 4122) 0
          \<lparr>buf = replicate 241 97, len = 241, comparer = offset_comparer\<rparr> None) = AVSTOR_PARAM
   \<and> fst (avstor_find empty_store 0
          \<lparr>buf = replicate 241 97, len = 241, comparer = offset_comparer\<rparr> 0 0) = AVSTOR_PARAM
   \<and> fst (avstor_find empty_store 0
          \<lparr>buf = replicate 240 97, len = 240, comparer = offset_comparer\<rparr> 0 0) \<noteq> AVSTOR_PARAM
   \<and> \<not> is_invalid_avstor_key \<lparr>buf = replicate 240 97, len = 240, comparer = offset_comparer\<rparr>
   \<and> fst (avstor_create_key empty_store (Inr 4122) 0
          \<lparr>buf = replicate 240 97, len = 240, comparer = offset_comparer\<rparr> None) \<noteq> AVSTOR_PARAM
   \<and> fst (avstor_create_key empty_store (Inr 4122) 0
          \<lparr>buf = replicate 240 97, len = 240, comparer = offset_comparer\<rparr> None) = AVSTOR_OK
   \<and> root (fst (snd (avstor_create_key empty_store (Inr 4122) 0
          \<lparr>buf = replicate 240 97, len = 240, comparer = offset_comparer\<rparr> None)))
       = AvNode Null 0 4122 (replicate 240 97 @ [0, 0, 0]) Null"
  using over_length_key_rejected[of "\<lparr>buf = replicate 241 97, len = 241, comparer = offset_comparer\<rparr>"
        empty_store "Inr 4122" 0 None _ _ _ _ _ _ _ 0 0]
      over_length_key_rejected[of "\<lparr>buf = replicate 240 97, len = 240, comparer = offset_comparer\<rparr>"
        empty_store "Inr 4122" 0 None _ _ _ _ "Inr 0" "Inr 0" _ 0 0]
  by (simp add: MAX_KEY_LEN_def avstor_create_key_def create_key_try_def
      is_invalid_avstor_key_def find_node_with_backtrace_def empty_store_def
      create_and_insert_def key_name_def align_node_def SIZE_NODE_HDR_def numeral_3_eq_3)

text \<open>
  C6 as stated does not hold: a key of length zero is not rejected.  On the empty store
  avstor_create_key with a key of length 0 returns \<open>AVSTOR_OK\<close> and inserts the node, whose
  name is the three bytes that pad the node header to a multiple of four, and avstor_find
  with that key returns \<open>AVSTOR_NOTFOUND\<close>, not \<open>AVSTOR_PARAM\<close>.
\<close>

theorem empty_key_accepted:
  "avstor_create_key empty_store (Inr 4122) 0 \<lparr>buf = [], len = 0, comparer = offset_comparer\<rparr> (Some 0)
     = (AVSTOR_OK, empty_store\<lparr>root := AvNode Null 0 4122 [0, 0, 0] Null,
           nodes := (nodes empty_store)(4122 \<mapsto> \<lparr>ntype = AVSTOR_TYPE_KEY, ndata = VKey Null Null 1\<rparr>),
           pagecount := 2, modified := True\<rparr>,
        Some 4122)
   \<and> fst (avstor_find empty_store 0 \<lparr>buf = [], len = 0, comparer = offset_comparer\<rparr> 0 0) = AVSTOR_NOTFOUND"
  by (simp add: avstor_create_key_def create_key_try_def is_invalid_avstor_key_def MAX_KEY_LEN_def
      find_node_with_backtrace_def empty_store_def create_and_insert_def key_name_def
      avstor_find_def select_root_def is_value_flag_def AVSTOR_VALUES_def
      align_node_def SIZE_NODE_HDR_def numeral_3_eq_3 PAGE_SIZE_def)

text \<open>
  C7.  avstor_create_string does not return \<open>AVSTOR_PARAM\<close> for every string longer than
  249 characters: for 251 characters followed by the NUL, strlen_l returns its bound 251, the
  length 252 differs from \<open>MAX_STRING_LEN + 1\<close>, and a string node with a payload of 252
  bytes is stored under the key at 4122 of the example store.  A string of 250 characters is
  rejected.
\<close>

theorem avstor_create_string_stores_252_bytes:
  "fst (avstor_create_string link_store (Inr 8220) 4122 (offset_key 9) (replicate 251 97 @ [0]) None)
     = AVSTOR_OK
   \<and> nodes (fst (snd (avstor_create_string link_store (Inr 8220) 4122 (offset_key 9)
                        (replicate 251 97 @ [0]) None))) 8220
     = Some \<lparr>ntype = AVSTOR_TYPE_STRING, ndata = VVar 252 (replicate 251 97 @ [0])\<rparr>
   \<and> fst (avstor_create_string link_store (Inr 8220) 4122 (offset_key 9) (replicate 250 97 @ [0]) None)
     = AVSTOR_PARAM"
proof -
  have t: "takeWhile (\<lambda>c. c \<noteq> 0) (replicate n (97::8 word)) = replicate n 97" for n
    by (induction n) simp_all
  have l1: "strlen_l (replicate 251 97 @ [0]) 251 = 251"
    by (simp add: strlen_l_def t)
  have l2: "strlen_l (replicate 250 97 @ [0]) 251 = 250"
    by (simp add: strlen_l_def t takeWhile_append)
  show ?thesis
    by (simp add: avstor_create_string_def l1 l2 MAX_STRING_LEN_def create_var_value_def
        create_value_def create_value_try_def create_and_insert_def offset_key_valid
        lock_keyref_def lock_noderef_def link_nodes_at type_defs find_bt_eq)
qed

text \<open>
  C10.  When the name exists already, avstor_create_key returns \<open>AVSTOR_EXISTS\<close> and
  \<open>out_key\<close>, if the caller passed one, holds the offset of the existing node; the value
  creating operations (avstor_create_int32, avstor_create_int64, avstor_create_double,
  create_var_value behind avstor_create_string and avstor_create_binary, avstor_create_link)
  return \<open>AVSTOR_EXISTS\<close> and leave \<open>out_value\<close> as it was.
\<close>

theorem exists_sets_out_key_only:
  assumes "\<not> is_invalid_avstor_key key"
  shows "((parent = 0 \<or> lock_keyref db parent = Inr pn)
          \<and> find_node_with_backtrace key
                (get_root db (if parent \<noteq> 0 then SubkeyRoot parent else HdrRoot))
              = Inr (AvNode l b ofs nm r, st)
          \<longrightarrow> avstor_create_key db alloc parent key out_key
              = (AVSTOR_EXISTS, rollback_store db, map_option (\<lambda>_. ofs) out_key))
       \<and> (lock_keyref db parent = Inr pn
          \<and> find_node_with_backtrace key (get_root db (ValueRoot parent))
              = Inr (AvNode l b ofs nm r, st)
          \<longrightarrow> avstor_create_int32 db alloc parent key ival out_value
                = (AVSTOR_EXISTS, rollback_store db, out_value)
            \<and> avstor_create_int64 db alloc parent key lval out_value
                = (AVSTOR_EXISTS, rollback_store db, out_value)
            \<and> avstor_create_double db alloc parent key lval out_value
                = (AVSTOR_EXISTS, rollback_store db, out_value)
            \<and> create_var_value db alloc parent key val valuesz ty out_value
                = (AVSTOR_EXISTS, rollback_store db, out_value)
            \<and> (target \<noteq> 0 \<longrightarrow>
                 avstor_create_link db alloc alloc_key alloc_value parent key target out_value
                   = (AVSTOR_EXISTS, rollback_store db, out_value)))"
  using assms
  by (auto simp: avstor_create_key_def create_key_try_def avstor_create_int32_def
      avstor_create_int64_def avstor_create_double_def create_fixed64_value_def
      create_var_value_def create_value_def create_value_try_def
      avstor_create_link_def create_link_try_def
      simp del: get_root.simps)

text \<open>
  On the example store: creating the second key again reports its offset 4124 in \<open>out_key\<close>;
  creating an int32 value under the name of the link leaves \<open>out_value\<close> at 0.
\<close>

theorem exists_sets_out_key_only_witness:
  "avstor_create_key link_store (Inr 4126) 0 (offset_key 2) (Some 0)
     = (AVSTOR_EXISTS, link_store, Some 4124)
   \<and> avstor_create_int32 link_store (Inr 8220) 4124 (offset_key 7) 5 (Some 0)
     = (AVSTOR_EXISTS, link_store, Some 0)"
  using exists_sets_out_key_only[OF offset_key_valid[of 2], where parent = 0 and db = link_store
        and l = Null and b = 0 and ofs = 4124 and nm = "key_name (offset_key 2)" and r = Null
        and st = "[Frame 1 1 4122 (key_name (offset_key 1)) Null]" and alloc = "Inr 4126"
        and out_key = "Some 0"]
      exists_sets_out_key_only[OF offset_key_valid[of 7], where parent = 4124 and db = link_store
        and pn = "\<lparr>ntype = AVSTOR_TYPE_KEY,
                   ndata = VKey Null (AvNode Null 0 8218 (key_name (offset_key 7)) Null) 1\<rparr>"
        and l = Null and b = 0 and ofs = 8218 and nm = "key_name (offset_key 7)" and r = Null
        and st = "[]" and alloc = "Inr 8220" and ival = 5 and out_value = "Some 0"]
      link_store_committed link_store_find link_store_select
  by (simp del: get_root.simps)

text \<open>
  C8.  For the tree the parent and the flags select, of height at most \<open>AVSTOR_AVL_HEIGHT\<close>:
  a caller that starts with avstor_inorder_first without a key and calls avstor_inorder_next
  until it fails is given exactly the nodes of the tree from left to right, or from right to
  left with \<open>AVSTOR_DESCENDING\<close>, and the call that ends the iteration returns
  \<open>AVSTOR_NOTFOUND\<close>.  With a key, on a tree ordered by the comparer, it is given the nodes
  not smaller than the key in ascending order (so it starts at the node equal to the key, or
  else at the smallest greater one), or with \<open>AVSTOR_DESCENDING\<close> the nodes not greater than
  the key in descending order; when there is none the first call returns \<open>AVSTOR_NOTFOUND\<close>.
  Left to right is the ascending order of an ordered tree.  The number \<open>n\<close> of calls allowed
  is at least the number of nodes.
\<close>

theorem inorder_cursor_visits_in_order:
  assumes "\<not> (is_value_flag fl \<and> parent = 0)"
    and "select_root db parent fl = Inr rr"
    and "height (get_root db rr) \<le> AVSTOR_AVL_HEIGHT"
    and "length (inorder (get_root db rr)) \<le> n"
  shows "inorder_all n st0 db parent None fl
           = Some (map fst (seq_of (is_descending_flag fl) (get_root db rr)), AVSTOR_NOTFOUND)
       \<and> (bst_by kf (get_root db rr) \<and> cmp_agrees (key_cmp key) kf k
            \<and> \<not> is_invalid_avstor_key key
          \<longrightarrow> inorder_all n st0 db parent (Some key) fl
              = Some (map fst (filter (seek_keeps (is_descending_flag fl) kf k)
                                 (seq_of (is_descending_flag fl) (get_root db rr))),
                      AVSTOR_NOTFOUND))
       \<and> (bst_by kf (get_root db rr)
          \<longrightarrow> sorted_wrt (<) (map (\<lambda>x. kf (snd x)) (seq_of False (get_root db rr)))
            \<and> seq_of True (get_root db rr) = rev (seq_of False (get_root db rr)))"
proof (intro conjI impI)
  show "inorder_all n st0 db parent None fl
           = Some (map fst (seq_of (is_descending_flag fl) (get_root db rr)), AVSTOR_NOTFOUND)"
    using inorder_all_no_key[OF assms(3,4), of fl] assms(1,2)
    by (simp add: inorder_all_def first_then_rest_def avstor_inorder_first_def del: get_root.simps)
next
  assume a: "bst_by kf (get_root db rr) \<and> cmp_agrees (key_cmp key) kf k
            \<and> \<not> is_invalid_avstor_key key"
  then have "cmp_agrees (comparer key (buf key)) kf k" by (simp add: key_cmp_def)
  then show "inorder_all n st0 db parent (Some key) fl
              = Some (map fst (filter (seek_keeps (is_descending_flag fl) kf k)
                                 (seq_of (is_descending_flag fl) (get_root db rr))),
                      AVSTOR_NOTFOUND)"
    using inorder_all_key[OF _ _ assms(3,4), of kf key k fl] assms(1,2) a
    by (simp add: inorder_all_def first_then_rest_def avstor_inorder_first_def del: get_root.simps)
next
  assume "bst_by kf (get_root db rr)"
  then show "sorted_wrt (<) (map (\<lambda>x. kf (snd x)) (seq_of False (get_root db rr)))"
    by (simp add: bst_by_def seq_of_def)
next
  show "seq_of True (get_root db rr) = rev (seq_of False (get_root db rr))"
    by (simp add: seq_of_def)
qed

text \<open>
  On the example store, under the root: both keys in ascending and in descending order, the
  second key alone when the cursor is started at its name, both keys in descending order from
  a name greater than both, and nothing in ascending order from that name.
\<close>

theorem inorder_cursor_visits_in_order_witness:
  "inorder_all 5 \<lparr>ref = [], flags = 0\<rparr> link_store 0 None 0 = Some ([4122, 4124], AVSTOR_NOTFOUND)
   \<and> inorder_all 5 \<lparr>ref = [], flags = 0\<rparr> link_store 0 None AVSTOR_DESCENDING
       = Some ([4124, 4122], AVSTOR_NOTFOUND)
   \<and> inorder_all 5 \<lparr>ref = [], flags = 0\<rparr> link_store 0 (Some (offset_key 2)) 0
       = Some ([4124], AVSTOR_NOTFOUND)
   \<and> inorder_all 5 \<lparr>ref = [], flags = 0\<rparr> link_store 0 (Some (offset_key 3)) AVSTOR_DESCENDING
       = Some ([4124, 4122], AVSTOR_NOTFOUND)
   \<and> inorder_all 5 \<lparr>ref = [], flags = 0\<rparr> link_store 0 (Some (offset_key 3)) 0
       = Some ([], AVSTOR_NOTFOUND)"
proof -
  have vf: "\<not> (is_value_flag 0 \<and> (0::nat) = 0)" "\<not> (is_value_flag AVSTOR_DESCENDING \<and> (0::nat) = 0)"
    by (simp_all add: is_value_flag_def AVSTOR_DESCENDING_def AVSTOR_VALUES_def)
  have h: "height (get_root link_store HdrRoot) \<le> AVSTOR_AVL_HEIGHT"
    "length (inorder (get_root link_store HdrRoot)) \<le> 5" by (simp_all add: AVSTOR_AVL_HEIGHT_def)
  have bo: "bytes_offset (key_name (offset_key 1)) = 1" "bytes_offset (key_name (offset_key 2)) = 2"
    "bytes_offset (key_name (offset_key (Suc 0))) = Suc 0"
    by (simp_all add: bytes_offset_key_name)
  have b: "bst_by bytes_offset (get_root link_store HdrRoot)"
    by (simp add: bst_by_def bo)
  have a2: "cmp_agrees (key_cmp (offset_key 2)) bytes_offset 2"
    "cmp_agrees (key_cmp (offset_key 3)) bytes_offset 3"
    by (rule offset_key_agrees, simp)+
  have d: "is_descending_flag 0 = False" "is_descending_flag AVSTOR_DESCENDING = True"
    by (simp_all add: is_descending_flag_def AVSTOR_DESCENDING_def)
  show ?thesis
    using inorder_cursor_visits_in_order[OF vf(1) link_store_select(1) h, of "\<lparr>ref = [], flags = 0\<rparr>"
        bytes_offset "offset_key 2" 2]
      inorder_cursor_visits_in_order[OF vf(1) link_store_select(1) h, of "\<lparr>ref = [], flags = 0\<rparr>"
        bytes_offset "offset_key 3" 3]
      inorder_cursor_visits_in_order[OF vf(2) link_store_select(2) h, of "\<lparr>ref = [], flags = 0\<rparr>"
        bytes_offset "offset_key 3" 3]
      b a2 offset_key_valid
    by (simp add: d bo seq_of_def seek_keeps_def)
qed


section \<open>Deleting a link removes its back-link\<close>













lemma backlink_present_exists:
  "backlink_present db target lnk \<Longrightarrow> exists_link_to_node db target"
  by (auto simp: backlink_present_def exists_link_to_node_def split: avtree.splits)



lemma empty_store_wf: "store_wf empty_store"
proof -
  have "get_root empty_store rr = Null" for rr by (cases rr) (simp_all add: empty_store_def)
  then have "trees_avl empty_store" by (simp add: trees_avl_def avl_ok_def)
  moreover have "links_sorted empty_store"
    by (simp add: links_sorted_def bst_by_def empty_store_def)
  moreover have "backlink_keys empty_store = {}" "backlink_values empty_store = {}"
    by (simp_all add: backlink_keys_def backlink_values_def empty_store_def)
  then have "backlinks_typed empty_store" by (simp add: backlinks_typed_def)
  moreover have "offsets_32bit empty_store" by (simp add: offsets_32bit_def empty_store_def)
  moreover have "links_recorded empty_store"
    by (simp add: links_recorded_def link_node_def empty_store_def)
  ultimately show ?thesis by (simp add: store_wf_def)
qed







lemma link_store_delete_link:
  "avstor_delete link_store 4124 AVSTOR_VALUES (offset_key 7)
     = (AVSTOR_OK, link_store\<lparr>root_links := Null,
          nodes := (link_nodes(4124 \<mapsto> \<lparr>ntype = AVSTOR_TYPE_KEY, ndata = VKey Null Null 1\<rparr>))
                     (12314 := None, 12316 := None, 8218 := None),
          modified := True\<rparr>)"
  by (simp add: avstor_delete_def delete_try_def select_root_def lock_keyref_def lock_noderef_def
      is_value_flag_def AVSTOR_VALUES_def offset_key_valid find_bt_eq offset_cmp_eval
      link_nodes_at type_defs exists_link_to_node_def delete_backlink_def delete_node_def
      fun_upd_twist)





section \<open>Creating a link records it in the back-link tree\<close>

lemma balance_down_inorder:
  "balance_down st t = Inr res \<Longrightarrow> inorder res = before_of st @ inorder t @ after_of st"
proof (induction st arbitrary: t res)
  case Nil
  then show ?case by simp
next
  case (Cons f st)
  obtain c b ofs nm s where f: "f = Frame c b ofs nm s" by (cases f)
  let ?cur = "node_of f t"
  obtain cl cr where cur: "?cur = AvNode cl b ofs nm cr"
    using f by (cases "c < 0") auto
  have tot: "before_of st @ inorder ?cur @ after_of st = before_of (f # st) @ inorder t @ after_of (f # st)"
    using f by auto
  have stop: "\<And>t'. res = unwind st t' \<Longrightarrow> inorder t' = inorder ?cur \<Longrightarrow> ?case"
    using tot by (simp add: inorder_unwind)
  show ?case
  proof (cases "b = 0")
    case True
    then have "balance_down st (set_bf ?cur (if c < 0 then - 1 else 1)) = Inr res"
      using Cons.prems f cur by (simp add: Let_def)
    then show ?thesis using Cons.IH tot by simp
  next
    case False
    show ?thesis
    proof (cases "(if c < 0 then - 1 else 1) + b \<noteq> 0")
      case nz: True
      obtain z' where z: "(if b > 0
                  then (if BF cr > 0 then rotate_left ?cur cr else rotate_right_left ?cur cr)
                  else (if BF cl < 0 then rotate_right ?cur cl else rotate_left_right ?cur cl)) = Inr z'"
        and r: "res = unwind st z'"
        using Cons.prems f cur False nz by (auto simp: Let_def split: sum.splits if_splits)
      have "inorder z' = inorder ?cur"
        using z rotate_left_inorder[of cl b ofs nm cr z'] rotate_right_left_inorder[of cl b ofs nm cr z']
          rotate_right_inorder[of cl b ofs nm cr z'] rotate_left_right_inorder[of cl b ofs nm cr z']
        unfolding cur by (auto split: if_splits)
      then show ?thesis using r stop by simp
    next
      case z: False
      then have "res = unwind st (set_bf ?cur 0)"
        using Cons.prems f cur False by (auto simp: Let_def split: if_splits)
      then show ?thesis using stop by simp
    qed
  qed
qed

text \<open>
  The path of a search in an ordered tree: what lies before the place it ends at is smaller
  than the key sought, what lies after it is greater.
\<close>

lemma descend_bounds:
  assumes "backtrace_descend c t st = Inr (sub, st')"
    and "cmp_agrees c kf k"
    and "sorted_wrt (<) (map (\<lambda>x. kf (snd x)) (before_of st @ inorder t @ after_of st))"
    and "\<forall>x \<in> set (before_of st). kf (snd x) < k"
    and "\<forall>x \<in> set (after_of st). k < kf (snd x)"
  shows "(\<forall>x \<in> set (before_of st'). kf (snd x) < k) \<and> (\<forall>x \<in> set (after_of st'). k < kf (snd x))"
  using assms
proof (induction c t st rule: backtrace_descend.induct)
  case (1 cmp st)
  then show ?case by simp
next
  case (2 cmp l b ofs nm r st)
  have c1: "cmp nm < 0 \<longleftrightarrow> k < kf nm" and c2: "cmp nm = 0 \<longleftrightarrow> k = kf nm"
    using 2(4) by (auto simp: cmp_agrees_def)
  show ?case
  proof (cases "cmp nm = 0")
    case True
    then show ?thesis using 2(3,6,7) by (simp add: Let_def)
  next
    case False
    then have ls: "length st < AVSTOR_AVL_HEIGHT"
      using 2(3) by (auto simp: Let_def split: if_splits)
    show ?thesis
    proof (cases "cmp nm < 0")
      case True
      let ?f = "Frame (cmp nm) b ofs nm r"
      have d: "backtrace_descend cmp l (?f # st) = Inr (sub, st')"
        using 2(3) False ls True by (simp add: Let_def)
      have s: "sorted_wrt (<) (map (\<lambda>x. kf (snd x)) (before_of (?f # st) @ inorder l @ after_of (?f # st)))"
        using 2(5) True by simp
      have b: "\<forall>x \<in> set (before_of (?f # st)). kf (snd x) < k" using 2(6) True by simp
      have "\<forall>x \<in> set (inorder r). kf nm < kf (snd x)"
        using 2(5) by (auto simp: sorted_wrt_append)
      then have a: "\<forall>x \<in> set (after_of (?f # st)). k < kf (snd x)"
        using 2(7) True c1 by auto
      show ?thesis using 2(1)[OF refl False ls True d 2(4) s b a] .
    next
      case nl: False
      let ?f = "Frame (cmp nm) b ofs nm l"
      have d: "backtrace_descend cmp r (?f # st) = Inr (sub, st')"
        using 2(3) False ls nl by (simp add: Let_def)
      have s: "sorted_wrt (<) (map (\<lambda>x. kf (snd x)) (before_of (?f # st) @ inorder r @ after_of (?f # st)))"
        using 2(5) nl by simp
      have a: "\<forall>x \<in> set (after_of (?f # st)). k < kf (snd x)" using 2(7) nl by simp
      have kk: "kf nm < k" using False nl c1 c2 by auto
      have "\<forall>x \<in> set (inorder l). kf (snd x) < kf nm"
        using 2(5) by (auto simp: sorted_wrt_append)
      then have b: "\<forall>x \<in> set (before_of (?f # st)). kf (snd x) < k"
        using 2(6) nl kk by auto
      show ?thesis using 2(2)[OF refl False ls nl d 2(4) s b a] .
    qed
  qed
qed

lemma sorted_key_unique:
  fixes f :: "'b \<Rightarrow> 'k::linorder"
  assumes "sorted_wrt (<) (map f xs)" "x \<in> set xs" "y \<in> set xs" "f x = f y"
  shows "x = y"
proof -
  have "distinct (map f xs)" using assms(1) strict_sorted_iff by blast
  then have "inj_on f (set xs)" by (simp add: distinct_map)
  then show ?thesis using assms(2,3,4) by (auto dest: inj_onD)
qed

text \<open>
  insert_node at the place a failed search has ended at: the tree stays ordered, it holds the
  nodes it held and the new one, and the search finds the new node.
\<close>

lemma insert_node_find:
  assumes bst: "bst_by kf t" and ag: "cmp_agrees c kf k"
    and d: "backtrace_descend c t [] = Inr (Null, st)"
    and ins: "insert_node ofs nm st = Inr t'"
    and k: "kf nm = k"
  shows "bst_by kf t' \<and> inorder t' = before_of st @ (ofs, nm) # after_of st
       \<and> inorder t = before_of st @ after_of st
       \<and> (\<exists>l b r. find_key c t' = AvNode l b ofs nm r)"
proof -
  have t: "t = unwind st Null" using descend_unwind[OF d] by simp
  have it: "inorder t = before_of st @ after_of st" unfolding t by (simp add: inorder_unwind)
  have it': "inorder t' = before_of st @ (ofs, nm) # after_of st"
    using balance_down_inorder[of st "AvNode Null 0 ofs nm Null" t'] ins by simp
  have s0: "sorted_wrt (<) (map (\<lambda>x. kf (snd x)) (before_of [] @ inorder t @ after_of []))"
    using bst by (simp add: bst_by_def)
  have bd: "(\<forall>x \<in> set (before_of st). kf (snd x) < k) \<and> (\<forall>x \<in> set (after_of st). k < kf (snd x))"
    using descend_bounds[OF d ag s0] by simp
  have "sorted_wrt (<) (map (\<lambda>x. kf (snd x)) (before_of st @ after_of st))"
    using bst it by (simp add: bst_by_def)
  then have b': "bst_by kf t'"
    unfolding bst_by_def it' using bd k by (auto simp: sorted_wrt_append)
  have "k \<in> (\<lambda>x. kf (snd x)) ` set (inorder t')" unfolding it' using k by force
  then have "find_key c t' \<noteq> Null" using find_key_Null_iff[OF b' ag] by simp
  then obtain l b o' nm' r where f: "find_key c t' = AvNode l b o' nm' r"
    by (cases "find_key c t'") auto
  have in1: "(o', nm') \<in> set (inorder t')" using find_key_in[OF f] .
  have c0: "c nm' = 0" using f
  proof (induction t')
    case Null
    then show ?case by simp
  next
    case (AvNode l1 b1 o1 n1 r1)
    then show ?case by (auto simp: Let_def split: if_splits)
  qed
  then have "kf nm' = k" using ag by (auto simp: cmp_agrees_def)
  moreover have "(ofs, nm) \<in> set (inorder t')" unfolding it' by simp
  ultimately have "(o', nm') = (ofs, nm)"
    using sorted_key_unique[of "\<lambda>x. kf (snd x)" "inorder t'" "(o', nm')" "(ofs, nm)"] b' in1 k
    by (simp add: bst_by_def)
  then show ?thesis using b' it' it f by auto
qed


lemma create_and_insert_value:
  assumes "create_and_insert db alloc (ValueRoot p) key st ty d = Inr (db1, new)"
  shows "alloc = Inr new"
    and "root_links db1 = root_links db"
    and "\<And>x. x \<noteq> p \<Longrightarrow> nodes db1 x = ((nodes db)(new \<mapsto> \<lparr>ntype = ty, ndata = d\<rparr>)) x"
    and "\<exists>t'. insert_node new (key_name key) st = Inr t'
           \<and> (\<forall>vr. p \<noteq> new \<and> nodes db p = Some \<lparr>ntype = AVSTOR_TYPE_KEY, ndata = VKey Null vr 0\<rparr>
                \<longrightarrow> nodes db1 p = Some \<lparr>ntype = AVSTOR_TYPE_KEY, ndata = VKey Null t' 0\<rparr>)"
  using assms
  by (auto simp: create_and_insert_def simp del: insert_node.simps
      split: sum.splits option.splits avdata.splits)

lemma create_and_insert_links:
  assumes "create_and_insert db alloc HdrRootLinks key st ty d = Inr (db1, new)"
  shows "alloc = Inr new"
    and "insert_node new (key_name key) st = Inr (root_links db1)"
    and "nodes db1 = (nodes db)(new \<mapsto> \<lparr>ntype = ty, ndata = d\<rparr>)"
  using assms
  by (auto simp: create_and_insert_def simp del: insert_node.simps split: sum.splits)

lemma find_key_cmp_zero:
  "find_key c t = AvNode l b ofs nm r \<Longrightarrow> c nm = 0"
  by (induction t) (auto simp: Let_def split: if_splits)


text \<open>
  create_backlink for the link node at \<open>new\<close>, in the store \<open>db1\<close> that avstor_create_link
  has made of \<open>db\<close> by inserting the link node under \<open>parent\<close>.  The offsets that alloc_node
  returns hold no node yet and differ from each other.
\<close>

lemma create_backlink_records:
  assumes ls: "links_sorted db" and ty: "backlinks_typed db"
    and np: "parent \<notin> backlink_keys db"
    and r1: "root_links db1 = root_links db"
    and n1: "\<And>x. x \<noteq> parent \<Longrightarrow>
               nodes db1 x = ((nodes db)(new \<mapsto> \<lparr>ntype = AVSTOR_TYPE_LINK, ndata = VLink target\<rparr>)) x"
    and pn: "nodes db parent \<noteq> None"
    and fn: "nodes db new = None"
    and fk: "\<And>k. alloc_key = Inr k \<Longrightarrow> nodes db k = None \<and> k \<noteq> new"
    and fv: "\<And>v. alloc_value = Inr v \<Longrightarrow> nodes db v = None \<and> v \<noteq> new \<and> alloc_key \<noteq> Inr v"
    and tb: "target < 2 ^ 32" and nb: "new < 2 ^ 32"
    and cb: "create_backlink db1 alloc_key alloc_value new target = Inr db'"
  shows "link_node db' new target \<and> backlink_present db' target new"
proof -
  let ?tc = "key_cmp (offset_key target)"
  let ?lc = "key_cmp (offset_key new)"
  let ?L = "\<lparr>ntype = AVSTOR_TYPE_LINK, ndata = VLink target\<rparr>"
  have ta: "cmp_agrees ?tc bytes_offset target" using tb by (rule offset_key_agrees)
  have la: "cmp_agrees ?lc bytes_offset new" using nb by (rule offset_key_agrees)
  have bst: "bst_by bytes_offset (root_links db)" using ls by (simp add: links_sorted_def)
  have pnew: "parent \<noteq> new" using pn fn by auto
  have keys_typed: "\<And>k. k \<in> backlink_keys db \<Longrightarrow>
      \<exists>vr. nodes db k = Some \<lparr>ntype = AVSTOR_TYPE_KEY, ndata = VKey Null vr 0\<rparr>"
    using ty by (auto simp: backlinks_typed_def)
  have vals_typed: "\<And>v. v \<in> backlink_values db \<Longrightarrow> nodes db v \<noteq> None"
    using ty by (force simp: backlinks_typed_def)
  have key1: "nodes db1 k = nodes db k" if "k \<in> backlink_keys db" for k
  proof -
    have "k \<noteq> parent" using that np by auto
    moreover have "k \<noteq> new" using keys_typed[OF that] fn by auto
    ultimately show ?thesis using n1[of k] by simp
  qed
  obtain found stk where f: "backtrace_descend ?tc (root_links db) [] = Inr (found, stk)"
    using cb r1 by (auto simp: create_backlink_def find_bt_eq split: sum.splits)
  obtain db1a kofs where inner: "(case found of
                   Null \<Rightarrow> create_and_insert db1 alloc_key HdrRootLinks (offset_key target) stk
                       AVSTOR_TYPE_KEY (VKey Null Null 0)
                 | AvNode l b ofs nm r \<Rightarrow> Inr (db1, ofs)) = Inr (db1a, kofs)"
    using cb r1 f by (auto simp: create_backlink_def find_bt_eq split: sum.splits)
  obtain st2 vofs where f2: "backtrace_descend ?lc (get_root db1a (ValueRoot kofs)) [] = Inr (Null, st2)"
    and last: "create_and_insert db1a alloc_value (ValueRoot kofs) (offset_key new) st2
                 AVSTOR_TYPE_LINK (VLink new) = Inr (db', vofs)"
    using cb r1 f inner
    by (auto simp: create_backlink_def find_bt_eq simp del: get_root.simps
        split: sum.splits avtree.splits prod.splits)
  have K: "(\<exists>l b nm r. find_key ?tc (root_links db1a) = AvNode l b kofs nm r)
         \<and> (\<exists>vr. nodes db1a kofs = Some \<lparr>ntype = AVSTOR_TYPE_KEY, ndata = VKey Null vr 0\<rparr>)
         \<and> bst_by bytes_offset (get_root db1a (ValueRoot kofs))
         \<and> fst ` set (inorder (get_root db1a (ValueRoot kofs))) \<subseteq> backlink_values db
         \<and> fst ` set (inorder (root_links db1a)) \<subseteq> insert kofs (backlink_keys db)
         \<and> (\<forall>x. x \<noteq> kofs \<longrightarrow> nodes db1a x = nodes db1 x)
         \<and> kofs \<noteq> new
         \<and> (alloc_key = Inr kofs \<or> nodes db kofs \<noteq> None)"
  proof (cases found)
    case Null
    have ci: "create_and_insert db1 alloc_key HdrRootLinks (offset_key target) stk
                AVSTOR_TYPE_KEY (VKey Null Null 0) = Inr (db1a, kofs)"
      using inner Null by simp
    have ak: "alloc_key = Inr kofs" using create_and_insert_links(1)[OF ci] .
    have kn: "kofs \<noteq> new" using fk[OF ak] by simp
    have ins: "insert_node kofs (key_name (offset_key target)) stk = Inr (root_links db1a)"
      using create_and_insert_links(2)[OF ci] .
    have nds: "nodes db1a = (nodes db1)(kofs \<mapsto> \<lparr>ntype = AVSTOR_TYPE_KEY, ndata = VKey Null Null 0\<rparr>)"
      using create_and_insert_links(3)[OF ci] .
    have i: "bst_by bytes_offset (root_links db1a)
       \<and> inorder (root_links db1a)
           = before_of stk @ (kofs, key_name (offset_key target)) # after_of stk
       \<and> inorder (root_links db) = before_of stk @ after_of stk
       \<and> (\<exists>l b r. find_key ?tc (root_links db1a) = AvNode l b kofs (key_name (offset_key target)) r)"
      using insert_node_find[OF bst ta f[unfolded Null] ins bytes_offset_key_name[OF tb]] .
    have gv: "get_root db1a (ValueRoot kofs) = Null" using nds by simp
    have sub: "fst ` set (inorder (root_links db1a)) \<subseteq> insert kofs (backlink_keys db)"
      using i by (auto simp: backlink_keys_def)
    show ?thesis using i nds gv kn ak sub by (auto simp: bst_by_def)
  next
    case (AvNode l b ko nm r)
    have e: "db1a = db1" "kofs = ko" using inner AvNode by auto
    have fkk: "find_key ?tc (root_links db) = AvNode l b kofs nm r"
      using descend_find_key[OF f] AvNode e by simp
    have kin: "kofs \<in> backlink_keys db"
      using find_key_in[OF fkk] by (force simp: backlink_keys_def)
    obtain vr where kn: "nodes db kofs = Some \<lparr>ntype = AVSTOR_TYPE_KEY, ndata = VKey Null vr 0\<rparr>"
      using keys_typed[OF kin] by blast
    have k1: "nodes db1 kofs = nodes db kofs" using key1[OF kin] .
    have gv: "get_root db1a (ValueRoot kofs) = get_root db (ValueRoot kofs)"
      using e k1 by simp
    have b: "bst_by bytes_offset (get_root db (ValueRoot kofs))"
      using ls find_key_in[OF fkk] by (auto simp: links_sorted_def simp del: get_root.simps)
    have vs: "fst ` set (inorder (get_root db (ValueRoot kofs))) \<subseteq> backlink_values db"
      using kin by (auto simp: backlink_values_def simp del: get_root.simps)
    have kn2: "kofs \<noteq> new" using kn fn by auto
    have sub: "fst ` set (inorder (root_links db1a)) \<subseteq> insert kofs (backlink_keys db)"
      using e r1 by (auto simp: backlink_keys_def)
    have a: "\<exists>l b nm r. find_key ?tc (root_links db1a) = AvNode l b kofs nm r"
      using fkk e r1 by auto
    have c: "\<exists>vr. nodes db1a kofs = Some \<lparr>ntype = AVSTOR_TYPE_KEY, ndata = VKey Null vr 0\<rparr>"
      using e k1 kn by simp
    show ?thesis unfolding gv using a c b vs sub kn2 kn e(1) by (simp del: get_root.simps)
  qed
  have av: "alloc_value = Inr vofs" using create_and_insert_value(1)[OF last] .
  have vf: "nodes db vofs = None" "vofs \<noteq> new" "alloc_key \<noteq> Inr vofs" using fv[OF av] by simp_all
  have vk: "vofs \<noteq> kofs" using K vf(1,3) by auto
  have rl': "root_links db' = root_links db1a" using create_and_insert_value(2)[OF last] .
  have nd': "\<And>x. x \<noteq> kofs \<Longrightarrow>
     nodes db' x = ((nodes db1a)(vofs \<mapsto> \<lparr>ntype = AVSTOR_TYPE_LINK, ndata = VLink new\<rparr>)) x"
    using create_and_insert_value(3)[OF last] .
  obtain tv where ins2: "insert_node vofs (key_name (offset_key new)) st2 = Inr tv"
    and nk: "nodes db' kofs = Some \<lparr>ntype = AVSTOR_TYPE_KEY, ndata = VKey Null tv 0\<rparr>"
    using create_and_insert_value(4)[OF last] K vk by blast
  have gv': "get_root db' (ValueRoot kofs) = tv" using nk by simp
  have bv: "bst_by bytes_offset (get_root db1a (ValueRoot kofs))" using K by blast
  have i2: "bst_by bytes_offset tv
       \<and> inorder tv = before_of st2 @ (vofs, key_name (offset_key new)) # after_of st2
       \<and> inorder (get_root db1a (ValueRoot kofs)) = before_of st2 @ after_of st2
       \<and> (\<exists>l b r. find_key ?lc tv = AvNode l b vofs (key_name (offset_key new)) r)"
    using insert_node_find[OF bv la f2 ins2 bytes_offset_key_name[OF nb]] .
  have bp: "backlink_present db' target new"
    unfolding backlink_present_def rl' using K gv' i2 by (auto simp del: get_root.simps)
  have "nodes db' new = ((nodes db1a)(vofs \<mapsto> \<lparr>ntype = AVSTOR_TYPE_LINK, ndata = VLink new\<rparr>)) new"
    using nd'[of new] K by simp
  also have "\<dots> = nodes db1a new" using vf(2) by simp
  also have "\<dots> = nodes db1 new" using K by simp
  also have "\<dots> = Some ?L" using n1[of new] pnew by simp
  finally have nnew: "nodes db' new = Some ?L" .
  have nbv: "new \<notin> backlink_values db'"
  proof
    assume "new \<in> backlink_values db'"
    then obtain k where k: "k \<in> fst ` set (inorder (root_links db'))"
      and m: "new \<in> fst ` set (inorder (get_root db' (ValueRoot k)))"
      by (auto simp: backlink_values_def backlink_keys_def simp del: get_root.simps)
    show False
    proof (cases "k = kofs")
      case True
      then have "new \<in> fst ` set (inorder tv)" using m gv' by simp
      then have "new = vofs \<or> new \<in> fst ` set (inorder (get_root db1a (ValueRoot kofs)))"
        using i2 by (auto simp del: get_root.simps)
      then have "new \<in> backlink_values db" using vf(2) K by auto
      then show False using vals_typed[of new] fn by simp
    next
      case False
      then have kin: "k \<in> backlink_keys db" using k rl' K by auto
      have "k \<noteq> vofs" using keys_typed[OF kin] vf(1) by auto
      then have "nodes db' k = nodes db1a k" using nd'[of k] False by simp
      also have "\<dots> = nodes db1 k" using K False by simp
      also have "\<dots> = nodes db k" using key1[OF kin] .
      finally have "get_root db' (ValueRoot k) = get_root db (ValueRoot k)" by simp
      then have "new \<in> backlink_values db"
        using m kin by (auto simp: backlink_values_def simp del: get_root.simps)
      then show False using vals_typed[of new] fn by simp
    qed
  qed
  show ?thesis using bp nnew nbv by (simp add: link_node_def)
qed


lemma balance_down_not_ok: "balance_down st sub \<noteq> Inl AVSTOR_OK"
proof (induction st arbitrary: sub)
  case Nil
  then show ?case by simp
next
  case (Cons f st)
  show ?case
    by (auto simp: Let_def Cons.IH split: if_splits sum.splits
        dest: rotate_right_err rotate_left_err rotate_right_left_err rotate_left_right_err)
qed

lemma create_and_insert_not_ok:
  "create_and_insert db alloc rr key st ty d = Inl AVSTOR_OK \<longleftrightarrow> alloc = Inl AVSTOR_OK"
  using balance_down_not_ok[of st "AvNode Null 0 _ (key_name key) Null"]
  by (auto simp: create_and_insert_def simp del: set_root.simps split: sum.splits)

lemma find_node_with_backtrace_not_ok: "find_node_with_backtrace key t \<noteq> Inl AVSTOR_OK"
  by (simp add: find_bt_eq backtrace_descend_not_ok)

lemma create_backlink_not_ok:
  "alloc_key \<noteq> Inl AVSTOR_OK \<Longrightarrow> alloc_value \<noteq> Inl AVSTOR_OK \<Longrightarrow>
   create_backlink db alloc_key alloc_value link target \<noteq> Inl AVSTOR_OK"
  by (auto simp: create_backlink_def find_node_with_backtrace_not_ok create_and_insert_not_ok
      simp del: get_root.simps set_root.simps
      split: sum.splits avtree.splits if_splits prod.splits)

lemma lock_keyref_not_ok: "lock_keyref db p \<noteq> Inl AVSTOR_OK"
  by (auto simp: lock_keyref_def lock_noderef_def split: option.splits)

lemma create_link_try_not_ok:
  assumes "alloc \<noteq> Inl AVSTOR_OK" "alloc_key \<noteq> Inl AVSTOR_OK" "alloc_value \<noteq> Inl AVSTOR_OK"
  shows "fst (create_link_try db alloc alloc_key alloc_value parent key target out) \<noteq> Inl AVSTOR_OK"
  using assms
  by (auto simp: create_link_try_def lock_keyref_not_ok find_node_with_backtrace_not_ok
        create_and_insert_not_ok create_backlink_not_ok
      simp del: get_root.simps split: sum.splits avtree.splits prod.splits)

text \<open>
  A successful avstor_create_link has made a link node to the target and recorded it in the
  back-link tree, so that avstor_delete will refuse to delete the target.  The parent is not
  a key node of the back-link tree (no operation hands out such a node), and what alloc_node
  throws is an error code.
\<close>

lemma avstor_create_link_records:
  assumes wf: "store_wf db"
    and np: "parent \<notin> backlink_keys db"
    and fa: "\<And>x. alloc = Inr x \<Longrightarrow> nodes db x = None \<and> x < 2 ^ 32"
    and fk: "\<And>k. alloc_key = Inr k \<Longrightarrow> nodes db k = None \<and> alloc \<noteq> Inr k"
    and fv: "\<And>v. alloc_value = Inr v \<Longrightarrow>
               nodes db v = None \<and> alloc \<noteq> Inr v \<and> alloc_key \<noteq> Inr v"
    and tb: "target < 2 ^ 32"
    and er: "alloc \<noteq> Inl AVSTOR_OK" "alloc_key \<noteq> Inl AVSTOR_OK" "alloc_value \<noteq> Inl AVSTOR_OK"
    and res: "avstor_create_link db alloc alloc_key alloc_value parent key target out
                = (AVSTOR_OK, db', out')"
  shows "\<exists>new. alloc = Inr new \<and> out' = map_option (\<lambda>_. new) out
           \<and> link_node db' new target \<and> backlink_present db' target new
           \<and> exists_link_to_node db' target"
proof -
  have ls: "links_sorted db" and ty: "backlinks_typed db"
    using wf by (simp_all add: store_wf_def)
  have tr: "create_link_try db alloc alloc_key alloc_value parent key target out = (Inr db', out')"
    using res create_link_try_not_ok[OF er, of db parent key target out]
    by (auto simp: avstor_create_link_def split: if_splits prod.splits sum.splits)
  obtain pn where lk: "lock_keyref db parent = Inr pn"
    using tr by (auto simp: create_link_try_def split: sum.splits)
  have pn: "nodes db parent \<noteq> None"
    using lk by (auto simp: lock_keyref_def lock_noderef_def split: if_splits option.splits)
  obtain st db1 new where ci: "create_and_insert db alloc (ValueRoot parent) key st
        AVSTOR_TYPE_LINK (VLink target) = Inr (db1, new)"
    and cb: "create_backlink db1 alloc_key alloc_value new target = Inr db'"
    and o: "out' = map_option (\<lambda>_. new) out"
    using tr lk
    by (auto simp: create_link_try_def simp del: get_root.simps
        split: sum.splits avtree.splits prod.splits)
  have al: "alloc = Inr new" using create_and_insert_value(1)[OF ci] .
  have r1: "root_links db1 = root_links db" using create_and_insert_value(2)[OF ci] .
  have n1: "\<And>x. x \<noteq> parent \<Longrightarrow>
      nodes db1 x = ((nodes db)(new \<mapsto> \<lparr>ntype = AVSTOR_TYPE_LINK, ndata = VLink target\<rparr>)) x"
    using create_and_insert_value(3)[OF ci] .
  have fn: "nodes db new = None" and nb: "new < 2 ^ 32" using fa[OF al] by simp_all
  have fk': "\<And>k. alloc_key = Inr k \<Longrightarrow> nodes db k = None \<and> k \<noteq> new"
    using fk al by auto
  have fv': "\<And>v. alloc_value = Inr v \<Longrightarrow> nodes db v = None \<and> v \<noteq> new \<and> alloc_key \<noteq> Inr v"
    using fv al by auto
  have "link_node db' new target \<and> backlink_present db' target new"
    using create_backlink_records[OF ls ty np r1 n1 pn fn fk' fv' tb nb cb] .
  then show ?thesis using al o backlink_present_exists[of db' target new] by blast
qed


section \<open>Commit and rollback\<close>

lemma set_checksum_other: "4 \<le> i \<Longrightarrow> set_checksum v p i = p i"
  by (simp add: set_checksum_def)

lemma update_page_checksum_other: "4 \<le> i \<Longrightarrow> update_page_checksum p i = p i"
  by (simp add: update_page_checksum_def Let_def set_checksum_other)

lemma flushed_other: "4 \<le> i \<Longrightarrow> i \<noteq> 16 \<Longrightarrow> flushed p i = p i"
  by (simp add: flushed_def update_page_checksum_other set_page_clean_def)



lemma page_offset_flushed: "page_offset (flushed p) = page_offset p"
  by (simp add: page_offset_def flushed_other)

lemma page_offset_set_page_dirty: "page_offset (set_page_dirty p) = page_offset p"
  by (simp add: page_offset_def set_page_dirty_def)


lemma write_page_eq:
  "write_page f p =
     (if \<not> is_page_dirty p then (AVSTOR_OK, p, f)
      else if wres f (page_offset p) < int PAGE_SIZE
      then (AVSTOR_IOERR, set_page_dirty (flushed p), f\<lparr>wlog := wlog f @ [log_entry p]\<rparr>)
      else (AVSTOR_OK, flushed p, f\<lparr>wlog := wlog f @ [log_entry p]\<rparr>))"
  by (simp add: write_page_def io_write_def Let_def log_entry_def flushed_def[symmetric]
      page_offset_flushed)










lemma example_frame_props:
  "page_offset (example_frame hi st) = 256 * unat hi"
  "is_page_dirty (example_frame hi 0x80)"
  "\<not> is_page_dirty (example_frame hi 0)"
  "lock_count_is_zero (example_frame hi st)"
  by (simp_all add: example_frame_def page_offset_def is_page_dirty_def PAGE_DIRTY_def
      lock_count_is_zero_def)




lemma clear_lock_count_props:
  "page_offset (clear_lock_count p) = page_offset p"
  "is_page_dirty (clear_lock_count p) = is_page_dirty p"
  "lock_count_is_zero (clear_lock_count p)"
  by (simp_all add: clear_lock_count_def page_offset_def is_page_dirty_def lock_count_is_zero_def)

lemma rollback_item_props:
  assumes "item_page (rollback_item it) = Some p" "page_offset p \<noteq> 0"
  shows "lock_count_is_zero p" "item_offset (rollback_item it) \<noteq> 0 \<Longrightarrow> \<not> is_page_dirty p"
    "\<exists>q. item_page it = Some q \<and> is_page_dirty p = is_page_dirty q
          \<and> page_offset p = page_offset q"
proof -
  obtain q where q: "item_page it = Some q"
    using assms(1) by (cases "item_page it") (auto simp: rollback_item_def)
  show "lock_count_is_zero p"
    using assms q by (auto simp: rollback_item_def clear_lock_count_props split: if_splits)
  show "\<not> is_page_dirty p" if "item_offset (rollback_item it) \<noteq> 0"
    using assms q that by (auto simp: rollback_item_def clear_lock_count_props split: if_splits)
  show "\<exists>q. item_page it = Some q \<and> is_page_dirty p = is_page_dirty q
          \<and> page_offset p = page_offset q"
    using assms q by (auto simp: rollback_item_def clear_lock_count_props split: if_splits)
qed

lemma scan_line_item:
  "cache_lookup_scan_line row ofs = Some p \<Longrightarrow>
   \<exists>it \<in> set row. item_page it = Some p \<and> item_offset it = ofs \<and> item_offset it \<noteq> 0"
  by (induction row) (auto split: option.splits if_splits)

text \<open>
  What rollback does: the header is the shadow header again, nothing is written to the file,
  every lock count is zero, and every item that still holds a valid page holds an unmodified
  frame, so that cache_lookup_scan_line never returns a modified page.
\<close>

lemma rollback_restores_header_and_invalidates:
  "header (cache (rollback db)) = old_header (cache db)
   \<and> old_header (cache (rollback db)) = old_header (cache db)
   \<and> av_file (rollback db) = av_file db
   \<and> (\<forall>row \<in> set (rows (cache (rollback db))). \<forall>it \<in> set row. \<forall>p.
         item_page it = Some p \<and> page_offset p \<noteq> 0
         \<longrightarrow> lock_count_is_zero p \<and> (item_offset it \<noteq> 0 \<longrightarrow> \<not> is_page_dirty p))
   \<and> (\<forall>row \<in> set (rows (cache (rollback db))). \<forall>ofs p.
         cache_lookup_scan_line row ofs = Some p \<and> page_offset p \<noteq> 0 \<longrightarrow> \<not> is_page_dirty p)"
proof (intro conjI ballI allI impI)
  show "header (cache (rollback db)) = old_header (cache db)" by (simp add: rollback_def)
  show "old_header (cache (rollback db)) = old_header (cache db)" by (simp add: rollback_def)
  show "av_file (rollback db) = av_file db" by (simp add: rollback_def)
next
  fix row it p
  assume r: "row \<in> set (rows (cache (rollback db)))" and i: "it \<in> set row"
    and p: "item_page it = Some p \<and> page_offset p \<noteq> 0"
  obtain it0 where it0: "it = rollback_item it0"
    using r i by (auto simp: rollback_def)
  show "lock_count_is_zero p"
    using rollback_item_props(1)[of it0 p] p it0 by simp
  show "\<not> is_page_dirty p" if "item_offset it \<noteq> 0"
    using rollback_item_props(2)[of it0 p] p it0 that by simp
next
  fix row ofs p
  assume r: "row \<in> set (rows (cache (rollback db)))"
    and s: "cache_lookup_scan_line row ofs = Some p \<and> page_offset p \<noteq> 0"
  obtain it where it: "it \<in> set row" "item_page it = Some p" "item_offset it \<noteq> 0"
    using scan_line_item[of row ofs p] s by blast
  obtain it0 where it0: "it = rollback_item it0"
    using r it(1) by (auto simp: rollback_def)
  show "\<not> is_page_dirty p"
    using rollback_item_props(2)[of it0 p] it it0 s by simp
qed

text \<open>
  On the example store the two modified pages are invalidated: the page at 4096 is found in
  the row before rollback and not after it.  The frames keep their dirty bit.
\<close>

lemma rollback_restores_header_and_invalidates_example:
  "rows (cache (rollback (dirty_page_store (\<lambda>_. 4096))))
     = [[\<lparr>item_page = Some (example_frame 0x10 0x80), item_offset = 0, load_time = 1\<rparr>,
         \<lparr>item_page = Some (example_frame 0x20 0x80), item_offset = 0, load_time = 2\<rparr>]]
   \<and> cache_lookup_scan_line
        (hd (rows (cache (rollback (dirty_page_store (\<lambda>_. 4096)))))) 4096 = None
   \<and> cache_lookup_scan_line (hd (rows (cache (dirty_page_store (\<lambda>_. 4096))))) 4096
       = Some (example_frame 0x10 0x80)
   \<and> lock_count_is_zero (example_frame 0x10 0x80)"
  using rollback_restores_header_and_invalidates[of "dirty_page_store (\<lambda>_. 4096)"]
  by (simp add: rollback_def dirty_page_store_def rollback_item_def example_frame_props)

text \<open>
  C1 does not hold of the code.  rollback invalidates the item of a modified page but leaves
  the dirty bit of its frame set, and avstor_commit does not look at the item's offset: on
  the example store, the commit that follows a rollback writes both discarded pages to the
  file.  And avstor_commit itself does not roll back: when the second write fails it returns
  \<open>AVSTOR_IOERR\<close> with the first page already written to the file.
\<close>

theorem rollback_then_commit_writes_discarded_page:
  "cache_lookup_scan_line (hd (rows (cache (rollback (dirty_page_store (\<lambda>_. 4096)))))) 4096 = None
   \<and> avstor_commit (rollback (dirty_page_store (\<lambda>_. 4096))) False
       = (AVSTOR_OK,
          \<lparr>av_file = \<lparr>wlog = [(4096, flushed (example_frame 0x10 0x80)),
                               (8192, flushed (example_frame 0x20 0x80))],
                       commits = 0, wres = (\<lambda>_. 4096), commit_ok = True\<rparr>,
           cache = \<lparr>rows = [[\<lparr>item_page = Some (flushed (example_frame 0x10 0x80)),
                               item_offset = 0, load_time = 1\<rparr>,
                             \<lparr>item_page = Some (flushed (example_frame 0x20 0x80)),
                               item_offset = 0, load_time = 2\<rparr>]],
                    header = example_frame 0 0, old_header = example_frame 0 0\<rparr>\<rparr>)
   \<and> fst (avstor_commit (dirty_page_store (\<lambda>pos. if pos = 8192 then - 1 else 4096)) True)
       = AVSTOR_IOERR
   \<and> wlog (av_file (snd (avstor_commit
              (dirty_page_store (\<lambda>pos. if pos = 8192 then - 1 else 4096)) True)))
       = [(4096, flushed (example_frame 0x10 0x80)), (8192, flushed (example_frame 0x20 0x80))]
   \<and> rows (cache (snd (avstor_commit
              (dirty_page_store (\<lambda>pos. if pos = 8192 then - 1 else 4096)) True)))
       = [[\<lparr>item_page = Some (flushed (example_frame 0x10 0x80)), item_offset = 4096,
            load_time = 1\<rparr>,
           \<lparr>item_page = Some (set_page_dirty (flushed (example_frame 0x20 0x80))),
            item_offset = 8192, load_time = 2\<rparr>]]"
  by (simp add: rollback_def dirty_page_store_def rollback_item_def example_frame_props
      avstor_commit_def write_page_eq example_file_def PAGE_SIZE_def log_entry_def)

end
